theory Spec2Isabelle
  imports Main "HOL-Library.Signed_Division"
begin

section \<open>EventManager: data model\<close>

text \<open>
  A shallow embedding of \<^verbatim>\<open>EventManager.h\<close> and \<^verbatim>\<open>EventManager.cpp\<close>.

  \<^item> A C++ \<^verbatim>\<open>int\<close> is a HOL \<open>int\<close>. Event codes and parameters are only copied and
    compared; the indices and counts stay between \<open>-1\<close> and the two capacities and a
    handled count is at most the number of events times the number of listeners, so
    for the capacities a target can hold no arithmetic of the program leaves the range
    of a machine integer.
  \<^item> The remainder \<^verbatim>\<open>%\<close> of C++ truncates towards zero: it is \<open>smod\<close>.
  \<^item> A function pointer \<^verbatim>\<open>EventListener\<close> is a natural number, the null pointer is \<open>0\<close>.
  \<^item> A fixed-size array is a list; the array index \<^verbatim>\<open>a[i]\<close> is \<open>a ! nat i\<close>. An index
    outside the array is undefined behaviour in C++. The predicates \<open>EventQueue_inv\<close>
    and \<open>ListenerList_inv\<close> below say that the array has its declared length and that
    every index the operations use is inside it; each theorem about an operation that
    reads or writes a slot has them as a hypothesis.
  \<^item> The two capacities are the build-time constants
    \<^verbatim>\<open>EVENTMANAGER_EVENT_QUEUE_SIZE\<close> and \<^verbatim>\<open>EVENTMANAGER_LISTENER_LIST_SIZE\<close>
    (default 8). The static members \<^verbatim>\<open>kEventQueueSize\<close> and \<^verbatim>\<open>kMaxListeners\<close>
    are fields of the records that no operation changes, so every result holds for every
    positive capacity.
  \<^item> Calling a listener is an effect outside the manager. The model records each call,
    in program order, in an effect log, together with each call of \<^verbatim>\<open>popEvent\<close> that
    \<^verbatim>\<open>processEvent\<close> and \<^verbatim>\<open>processAllEvents\<close> make. The model of the manager
    (\<open>EventManager_processEvent\<close>, \<open>EventManager_processAllEvents\<close>) assumes that a
    listener does not call back into the manager while an event is dispatched;
    \<open>ListenerList_sendEvent_acting\<close> is \<^verbatim>\<open>sendEvent\<close> without this assumption, for
    listeners that change the table.
  \<^item> \<^verbatim>\<open>cli()\<close>, \<^verbatim>\<open>sei()\<close> and the saved \<^verbatim>\<open>SREG\<close> only mask interrupts. The model is
    the sequential semantics of each operation and does not represent the mask; the
    debug output (off unless \<^verbatim>\<open>EVENTMANAGER_DEBUG\<close> is set) is left out as well.
\<close>

type_synonym EventListener = nat

datatype SafetyMode = kNotInterruptSafe | kInterruptSafe

datatype EventPriority = kHighPriority | kLowPriority

definition kEventNone :: int where
  "kEventNone = 200"

text \<open>The capacities of the header when the build does not set them.\<close>

definition EVENTMANAGER_LISTENER_LIST_SIZE :: int where
  "EVENTMANAGER_LISTENER_LIST_SIZE = 8"

definition EVENTMANAGER_EVENT_QUEUE_SIZE :: int where
  "EVENTMANAGER_EVENT_QUEUE_SIZE = 8"

record EventElement =
  code :: int
  param :: int

record EventQueue =
  kEventQueueSize :: int
  mEventQueue :: "EventElement list"
  mEventQueueHead :: int
  mEventQueueTail :: int
  mNumEvents :: int
  mInterruptSafeMode :: bool

section \<open>EventQueue\<close>

text \<open>The constructor sets the indices and the count to 0 and fills every slot with
  \<^verbatim>\<open>(kEventNone, 0)\<close>.\<close>

definition EventQueue_ctor :: "int \<Rightarrow> bool \<Rightarrow> EventQueue" where
  "EventQueue_ctor K beSafe =
     \<lparr> kEventQueueSize = K,
       mEventQueue = replicate (nat K) \<lparr> code = kEventNone, param = 0 \<rparr>,
       mEventQueueHead = 0,
       mEventQueueTail = 0,
       mNumEvents = 0,
       mInterruptSafeMode = beSafe \<rparr>"

definition EventQueue_isEmpty :: "EventQueue \<Rightarrow> bool" where
  "EventQueue_isEmpty q = (mNumEvents q = 0)"

definition EventQueue_isFull :: "EventQueue \<Rightarrow> bool" where
  "EventQueue_isFull q = (mNumEvents q = kEventQueueSize q)"

definition EventQueue_getNumEvents :: "EventQueue \<Rightarrow> int" where
  "EventQueue_getNumEvents q = mNumEvents q"

text \<open>\<^verbatim>\<open>queueEvent\<close> returns \<^verbatim>\<open>retVal\<close> and the queue after the call.\<close>

definition EventQueue_queueEvent :: "int \<Rightarrow> int \<Rightarrow> EventQueue \<Rightarrow> bool \<times> EventQueue" where
  "EventQueue_queueEvent ec ep q =
     (if \<not> EventQueue_isFull q
      then (True,
            q \<lparr> mEventQueue :=
                  (mEventQueue q)[nat (mEventQueueTail q) :=
                    (mEventQueue q ! nat (mEventQueueTail q))
                      \<lparr> code := ec, param := ep \<rparr>],
                mEventQueueTail := (mEventQueueTail q + 1) smod kEventQueueSize q,
                mNumEvents := mNumEvents q + 1 \<rparr>)
      else (False, q))"

text \<open>\<^verbatim>\<open>popEvent\<close> writes through its two pointer arguments. The model takes the values
  the two pointees hold before the call and returns the result, the values they hold
  after the call, and the queue after the call.\<close>

definition EventQueue_popEvent ::
  "int \<times> int \<Rightarrow> EventQueue \<Rightarrow> bool \<times> (int \<times> int) \<times> EventQueue" where
  "EventQueue_popEvent out q =
     (if EventQueue_isEmpty q then (False, out, q)
      else (True,
            (code (mEventQueue q ! nat (mEventQueueHead q)),
             param (mEventQueue q ! nat (mEventQueueHead q))),
            q \<lparr> mEventQueue :=
                  (mEventQueue q)[nat (mEventQueueHead q) :=
                    (mEventQueue q ! nat (mEventQueueHead q)) \<lparr> code := kEventNone \<rparr>],
                mEventQueueHead := (mEventQueueHead q + 1) smod kEventQueueSize q,
                mNumEvents := mNumEvents q - 1 \<rparr>))"

text \<open>The structural invariant of a queue: the array has \<^verbatim>\<open>kEventQueueSize\<close> slots, the
  count is between 0 and the capacity, head and tail are indices of the array.\<close>

definition EventQueue_inv :: "EventQueue \<Rightarrow> bool" where
  "EventQueue_inv q =
     (0 < kEventQueueSize q \<and>
      length (mEventQueue q) = nat (kEventQueueSize q) \<and>
      0 \<le> mNumEvents q \<and> mNumEvents q \<le> kEventQueueSize q \<and>
      0 \<le> mEventQueueHead q \<and> mEventQueueHead q < kEventQueueSize q \<and>
      0 \<le> mEventQueueTail q \<and> mEventQueueTail q < kEventQueueSize q)"

section \<open>ListenerList\<close>

record ListenerItem =
  callback :: EventListener
  eventCode :: int
  enabled :: bool

record ListenerList =
  kMaxListeners :: int
  mNumListeners :: int
  mListeners :: "ListenerItem list"
  mDefaultCallback :: EventListener
  mDefaultCallbackEnabled :: bool

text \<open>What a call of the manager does to the outside, in program order: a call of
  \<^verbatim>\<open>popEvent\<close> on one of the two queues with the event it returned (\<open>None\<close> when it
  returned false), and a call of a listener with its two arguments.\<close>

datatype effect =
  Pop EventPriority "(int \<times> int) option"
| Call EventListener int int

text \<open>The constructor initialises \<^verbatim>\<open>mNumListeners\<close> and \<^verbatim>\<open>mDefaultCallback\<close> only.
  The table and \<^verbatim>\<open>mDefaultCallbackEnabled\<close> keep whatever the memory holds: the
  model takes these indeterminate contents as the arguments \<open>slots0\<close> and \<open>flag0\<close>.\<close>

definition ListenerList_ctor :: "int \<Rightarrow> ListenerItem list \<Rightarrow> bool \<Rightarrow> ListenerList" where
  "ListenerList_ctor L slots0 flag0 =
     \<lparr> kMaxListeners = L,
       mNumListeners = 0,
       mListeners = slots0,
       mDefaultCallback = 0,
       mDefaultCallbackEnabled = flag0 \<rparr>"

definition ListenerList_numListeners :: "ListenerList \<Rightarrow> int" where
  "ListenerList_numListeners ll = mNumListeners ll"

definition ListenerList_isEmpty :: "ListenerList \<Rightarrow> bool" where
  "ListenerList_isEmpty ll = (mNumListeners ll = 0)"

definition ListenerList_isFull :: "ListenerList \<Rightarrow> bool" where
  "ListenerList_isFull ll = (mNumListeners ll = kMaxListeners ll)"

text \<open>The loop of \<^verbatim>\<open>searchListeners( eventCode, listener )\<close>, from index \<open>i\<close> on.\<close>

function searchListeners_loop :: "int \<Rightarrow> EventListener \<Rightarrow> ListenerList \<Rightarrow> int \<Rightarrow> int" where
  "searchListeners_loop ec listener ll i =
     (if i < mNumListeners ll
      then (if eventCode (mListeners ll ! nat i) = ec \<and> callback (mListeners ll ! nat i) = listener
            then i
            else searchListeners_loop ec listener ll (i + 1))
      else - 1)"
  by pat_completeness auto
termination
  by (relation "measure (\<lambda>(ec, listener, ll, i). nat (mNumListeners ll - i))") auto

declare searchListeners_loop.simps [simp del]

definition ListenerList_searchListeners :: "int \<Rightarrow> EventListener \<Rightarrow> ListenerList \<Rightarrow> int" where
  "ListenerList_searchListeners ec listener ll = searchListeners_loop ec listener ll 0"

text \<open>The loop of the overload \<^verbatim>\<open>searchListeners( listener )\<close>.\<close>

function searchListeners_cb_loop :: "EventListener \<Rightarrow> ListenerList \<Rightarrow> int \<Rightarrow> int" where
  "searchListeners_cb_loop listener ll i =
     (if i < mNumListeners ll
      then (if callback (mListeners ll ! nat i) = listener
            then i
            else searchListeners_cb_loop listener ll (i + 1))
      else - 1)"
  by pat_completeness auto
termination
  by (relation "measure (\<lambda>(listener, ll, i). nat (mNumListeners ll - i))") auto

declare searchListeners_cb_loop.simps [simp del]

definition ListenerList_searchListeners_cb :: "EventListener \<Rightarrow> ListenerList \<Rightarrow> int" where
  "ListenerList_searchListeners_cb listener ll = searchListeners_cb_loop listener ll 0"

function searchEventCode_loop :: "int \<Rightarrow> ListenerList \<Rightarrow> int \<Rightarrow> int" where
  "searchEventCode_loop ec ll i =
     (if i < mNumListeners ll
      then (if eventCode (mListeners ll ! nat i) = ec
            then i
            else searchEventCode_loop ec ll (i + 1))
      else - 1)"
  by pat_completeness auto
termination
  by (relation "measure (\<lambda>(ec, ll, i). nat (mNumListeners ll - i))") auto

declare searchEventCode_loop.simps [simp del]

definition ListenerList_searchEventCode :: "int \<Rightarrow> ListenerList \<Rightarrow> int" where
  "ListenerList_searchEventCode ec ll = searchEventCode_loop ec ll 0"

definition ListenerList_addListener ::
  "int \<Rightarrow> EventListener \<Rightarrow> ListenerList \<Rightarrow> bool \<times> ListenerList" where
  "ListenerList_addListener ec listener ll =
     (if listener = 0 then (False, ll)
      else if ListenerList_isFull ll then (False, ll)
      else (True,
            ll \<lparr> mListeners :=
                   (mListeners ll)[nat (mNumListeners ll) :=
                     (mListeners ll ! nat (mNumListeners ll))
                       \<lparr> callback := listener, eventCode := ec, enabled := True \<rparr>],
                 mNumListeners := mNumListeners ll + 1 \<rparr>))"

text \<open>The loop that both \<^verbatim>\<open>removeListener\<close> overloads run from the index found:
  slot \<open>i\<close> takes the three fields of slot \<open>i + 1\<close> while \<open>i < mNumListeners - 1\<close>.\<close>

function removeListener_shift :: "int \<Rightarrow> ListenerList \<Rightarrow> ListenerList" where
  "removeListener_shift i ll =
     (if i < mNumListeners ll - 1
      then removeListener_shift (i + 1)
             (ll \<lparr> mListeners :=
                    (mListeners ll)[nat i :=
                      (mListeners ll ! nat i)
                        \<lparr> callback := callback (mListeners ll ! nat (i + 1)),
                          eventCode := eventCode (mListeners ll ! nat (i + 1)),
                          enabled := enabled (mListeners ll ! nat (i + 1)) \<rparr>] \<rparr>)
      else ll)"
  by pat_completeness auto
termination
  by (relation "measure (\<lambda>(i, ll). nat (mNumListeners ll - 1 - i))") auto

declare removeListener_shift.simps [simp del]

definition ListenerList_removeListener ::
  "int \<Rightarrow> EventListener \<Rightarrow> ListenerList \<Rightarrow> bool \<times> ListenerList" where
  "ListenerList_removeListener ec listener ll =
     (if mNumListeners ll = 0 then (False, ll)
      else let k = ListenerList_searchListeners ec listener ll in
        if k < 0 then (False, ll)
        else let ll' = removeListener_shift k ll in
          (True, ll' \<lparr> mNumListeners := mNumListeners ll' - 1 \<rparr>))"

definition ListenerList_enableListener ::
  "int \<Rightarrow> EventListener \<Rightarrow> bool \<Rightarrow> ListenerList \<Rightarrow> bool \<times> ListenerList" where
  "ListenerList_enableListener ec listener enable ll =
     (if mNumListeners ll = 0 then (False, ll)
      else let k = ListenerList_searchListeners ec listener ll in
        if k < 0 then (False, ll)
        else (True,
              ll \<lparr> mListeners :=
                     (mListeners ll)[nat k := (mListeners ll ! nat k) \<lparr> enabled := enable \<rparr>] \<rparr>))"

definition ListenerList_isListenerEnabled :: "int \<Rightarrow> EventListener \<Rightarrow> ListenerList \<Rightarrow> bool" where
  "ListenerList_isListenerEnabled ec listener ll =
     (if mNumListeners ll = 0 then False
      else let k = ListenerList_searchListeners ec listener ll in
        if k < 0 then False
        else enabled (mListeners ll ! nat k))"

text \<open>The scan of \<^verbatim>\<open>sendEvent\<close> from index \<open>i\<close> on, with \<^verbatim>\<open>handlerCount\<close> and the
  calls made so far. The source reads \<^verbatim>\<open>mNumListeners\<close> and \<^verbatim>\<open>mListeners[ i ]\<close> anew in
  every round. \<open>sendEvent_loop\<close> is the scan over a table that is the same in every
  round: the scan when no listener it calls changes the table. \<open>sendEvent_scan\<close> below
  is the scan with listeners that may change the table, and the two agree whenever the
  listeners called leave the table as it is (\<open>sendEvent_scan_still\<close>).\<close>

function sendEvent_loop ::
  "int \<Rightarrow> int \<Rightarrow> ListenerList \<Rightarrow> int \<Rightarrow> int \<Rightarrow> effect list \<Rightarrow> int \<times> effect list" where
  "sendEvent_loop ec p ll i handlerCount calls =
     (if i < mNumListeners ll
      then (if callback (mListeners ll ! nat i) \<noteq> 0
               \<and> eventCode (mListeners ll ! nat i) = ec
               \<and> enabled (mListeners ll ! nat i)
            then sendEvent_loop ec p ll (i + 1) (handlerCount + 1)
                   (calls @ [Call (callback (mListeners ll ! nat i)) ec p])
            else sendEvent_loop ec p ll (i + 1) handlerCount calls)
      else (handlerCount, calls))"
  by pat_completeness auto
termination
  by (relation "measure (\<lambda>(ec, p, ll, i, handlerCount, calls). nat (mNumListeners ll - i))") auto

declare sendEvent_loop.simps [simp del]

definition ListenerList_sendEvent :: "int \<Rightarrow> int \<Rightarrow> ListenerList \<Rightarrow> int \<times> effect list" where
  "ListenerList_sendEvent ec p ll =
     (case sendEvent_loop ec p ll 0 0 [] of (handlerCount, calls) \<Rightarrow>
        if handlerCount = 0
        then (if mDefaultCallback ll \<noteq> 0 \<and> mDefaultCallbackEnabled ll
              then (handlerCount + 1, calls @ [Call (mDefaultCallback ll) ec p])
              else (handlerCount, calls))
        else (handlerCount, calls))"

text \<open>A listener may call the manager while it runs, for instance \<^verbatim>\<open>removeListener\<close> on
  itself. \<open>act cb c a ll\<close> is the table that the listener \<open>cb\<close>, called with \<open>(c, a)\<close>
  on the table \<open>ll\<close>, leaves behind. The scan passes the table through each call and
  reads the count and the slot from the table the last call left; after the scan,
  \<^verbatim>\<open>sendEvent\<close> reads the default listener from that table as well. The result is
  \<^verbatim>\<open>handlerCount\<close>, the calls and the table at the end. Listeners that raise the count
  in every call keep the scan going for ever: \<open>None\<close> is a scan that never ends.\<close>

type_synonym listener_action = "EventListener \<Rightarrow> int \<Rightarrow> int \<Rightarrow> ListenerList \<Rightarrow> ListenerList"

partial_function (option) sendEvent_scan ::
  "listener_action \<Rightarrow> int \<Rightarrow> int \<Rightarrow> int \<Rightarrow> int \<Rightarrow> effect list \<Rightarrow> ListenerList
     \<Rightarrow> (int \<times> effect list \<times> ListenerList) option" where
  "sendEvent_scan act ec p i handlerCount calls ll =
     (if i < mNumListeners ll
      then (if callback (mListeners ll ! nat i) \<noteq> 0
               \<and> eventCode (mListeners ll ! nat i) = ec
               \<and> enabled (mListeners ll ! nat i)
            then sendEvent_scan act ec p (i + 1) (handlerCount + 1)
                   (calls @ [Call (callback (mListeners ll ! nat i)) ec p])
                   (act (callback (mListeners ll ! nat i)) ec p ll)
            else sendEvent_scan act ec p (i + 1) handlerCount calls ll)
      else Some (handlerCount, calls, ll))"

declare sendEvent_scan.simps [code]

definition ListenerList_sendEvent_acting ::
  "listener_action \<Rightarrow> int \<Rightarrow> int \<Rightarrow> ListenerList \<Rightarrow> (int \<times> effect list \<times> ListenerList) option" where
  "ListenerList_sendEvent_acting act ec p ll =
     (case sendEvent_scan act ec p 0 0 [] ll of
        None \<Rightarrow> None
      | Some (handlerCount, calls, ll') \<Rightarrow>
          if handlerCount = 0
          then (if mDefaultCallback ll' \<noteq> 0 \<and> mDefaultCallbackEnabled ll'
                then Some (handlerCount + 1, calls @ [Call (mDefaultCallback ll') ec p],
                           act (mDefaultCallback ll') ec p ll')
                else Some (handlerCount, calls, ll'))
          else Some (handlerCount, calls, ll'))"

definition ListenerList_setDefaultListener :: "EventListener \<Rightarrow> ListenerList \<Rightarrow> bool \<times> ListenerList" where
  "ListenerList_setDefaultListener listener ll =
     (if listener = 0 then (False, ll)
      else (True, ll \<lparr> mDefaultCallback := listener, mDefaultCallbackEnabled := True \<rparr>))"

definition ListenerList_removeDefaultListener :: "ListenerList \<Rightarrow> ListenerList" where
  "ListenerList_removeDefaultListener ll =
     ll \<lparr> mDefaultCallback := 0, mDefaultCallbackEnabled := False \<rparr>"

definition ListenerList_enableDefaultListener :: "bool \<Rightarrow> ListenerList \<Rightarrow> ListenerList" where
  "ListenerList_enableDefaultListener enable ll = ll \<lparr> mDefaultCallbackEnabled := enable \<rparr>"

text \<open>The overload \<^verbatim>\<open>removeListener( listener )\<close> searches and shifts until the search
  fails. Each round lowers \<^verbatim>\<open>mNumListeners\<close>, and a successful search needs a positive
  \<^verbatim>\<open>mNumListeners\<close>: this is why the loop ends.\<close>

lemma searchListeners_cb_loop_range:
  "0 \<le> searchListeners_cb_loop listener ll i \<Longrightarrow>
   i \<le> searchListeners_cb_loop listener ll i \<and>
   searchListeners_cb_loop listener ll i < mNumListeners ll"
proof (induction listener ll i rule: searchListeners_cb_loop.induct)
  case (1 listener ll i)
  show ?case
  proof (cases "i < mNumListeners ll")
    case True
    show ?thesis
    proof (cases "callback (mListeners ll ! nat i) = listener")
      case True
      with \<open>i < mNumListeners ll\<close> show ?thesis
        by (simp add: searchListeners_cb_loop.simps [of listener ll i])
    next
      case False
      with True "1.prems" have "0 \<le> searchListeners_cb_loop listener ll (i + 1)"
        by (simp add: searchListeners_cb_loop.simps [of listener ll i])
      with "1.IH" [OF True False] True False show ?thesis
        by (simp add: searchListeners_cb_loop.simps [of listener ll i])
    qed
  next
    case False
    with "1.prems" show ?thesis
      by (simp add: searchListeners_cb_loop.simps [of listener ll i])
  qed
qed

lemma removeListener_shift_mNumListeners [simp]:
  "mNumListeners (removeListener_shift i ll) = mNumListeners ll"
proof (induction i ll rule: removeListener_shift.induct)
  case (1 i ll)
  show ?case
  proof (cases "i < mNumListeners ll - 1")
    case True
    with "1.IH" show ?thesis
      by (simp add: removeListener_shift.simps [of i ll])
  next
    case False
    then show ?thesis
      by (simp add: removeListener_shift.simps [of i ll])
  qed
qed

function removeListener_cb_loop ::
  "EventListener \<Rightarrow> ListenerList \<Rightarrow> int \<Rightarrow> int \<times> ListenerList" where
  "removeListener_cb_loop listener ll removed =
     (let k = ListenerList_searchListeners_cb listener ll in
      if 0 \<le> k
      then removeListener_cb_loop listener
             ((removeListener_shift k ll)
                \<lparr> mNumListeners := mNumListeners (removeListener_shift k ll) - 1 \<rparr>)
             (removed + 1)
      else (removed, ll))"
  by pat_completeness auto
termination
proof (relation "measure (\<lambda>(listener, ll, removed). nat (mNumListeners ll))", goal_cases)
  case 1
  show ?case by simp
next
  case (2 listener ll removed k)
  then have "0 \<le> searchListeners_cb_loop listener ll 0"
    by (simp add: ListenerList_searchListeners_cb_def)
  from searchListeners_cb_loop_range [OF this] show ?case
    by simp
qed

declare removeListener_cb_loop.simps [simp del]

definition ListenerList_removeListener_cb :: "EventListener \<Rightarrow> ListenerList \<Rightarrow> int \<times> ListenerList" where
  "ListenerList_removeListener_cb listener ll =
     (if mNumListeners ll = 0 then (0, ll)
      else removeListener_cb_loop listener ll 0)"

text \<open>The entries of the table that are in use, oldest first. The table is within bounds
  when the array has \<^verbatim>\<open>kMaxListeners\<close> slots and the count is between 0 and the capacity.
  The structural invariant adds that the slots below the count hold registrations: a
  registration has a listener, so no slot below the count is a hole.\<close>

definition ListenerList_entries :: "ListenerList \<Rightarrow> ListenerItem list" where
  "ListenerList_entries ll = take (nat (mNumListeners ll)) (mListeners ll)"

definition ListenerList_bounds :: "ListenerList \<Rightarrow> bool" where
  "ListenerList_bounds ll =
     (length (mListeners ll) = nat (kMaxListeners ll) \<and>
      0 \<le> mNumListeners ll \<and> mNumListeners ll \<le> kMaxListeners ll)"

definition ListenerList_inv :: "ListenerList \<Rightarrow> bool" where
  "ListenerList_inv ll =
     (ListenerList_bounds ll \<and>
      list_all (\<lambda>e. callback e \<noteq> 0) (ListenerList_entries ll))"

section \<open>EventManager\<close>

text \<open>The member \<^verbatim>\<open>mListeners\<close> of \<^verbatim>\<open>EventManager\<close> is the field \<open>mListenerList\<close>: the
  name \<open>mListeners\<close> is the table inside \<^verbatim>\<open>ListenerList\<close>.\<close>

record EventManager =
  mHighPriorityQueue :: EventQueue
  mLowPriorityQueue :: EventQueue
  mListenerList :: ListenerList

definition EventManager_ctor ::
  "int \<Rightarrow> int \<Rightarrow> SafetyMode \<Rightarrow> ListenerItem list \<Rightarrow> bool \<Rightarrow> EventManager" where
  "EventManager_ctor K L safety slots0 flag0 =
     \<lparr> mHighPriorityQueue = EventQueue_ctor K (safety = kInterruptSafe),
       mLowPriorityQueue = EventQueue_ctor K (safety = kInterruptSafe),
       mListenerList = ListenerList_ctor L slots0 flag0 \<rparr>"

definition EventManager_addListener ::
  "int \<Rightarrow> EventListener \<Rightarrow> EventManager \<Rightarrow> bool \<times> EventManager" where
  "EventManager_addListener ec listener em =
     (case ListenerList_addListener ec listener (mListenerList em) of
        (r, ll) \<Rightarrow> (r, em \<lparr> mListenerList := ll \<rparr>))"

definition EventManager_removeListener ::
  "int \<Rightarrow> EventListener \<Rightarrow> EventManager \<Rightarrow> bool \<times> EventManager" where
  "EventManager_removeListener ec listener em =
     (case ListenerList_removeListener ec listener (mListenerList em) of
        (r, ll) \<Rightarrow> (r, em \<lparr> mListenerList := ll \<rparr>))"

definition EventManager_removeListener_cb ::
  "EventListener \<Rightarrow> EventManager \<Rightarrow> int \<times> EventManager" where
  "EventManager_removeListener_cb listener em =
     (case ListenerList_removeListener_cb listener (mListenerList em) of
        (r, ll) \<Rightarrow> (r, em \<lparr> mListenerList := ll \<rparr>))"

definition EventManager_enableListener ::
  "int \<Rightarrow> EventListener \<Rightarrow> bool \<Rightarrow> EventManager \<Rightarrow> bool \<times> EventManager" where
  "EventManager_enableListener ec listener enable em =
     (case ListenerList_enableListener ec listener enable (mListenerList em) of
        (r, ll) \<Rightarrow> (r, em \<lparr> mListenerList := ll \<rparr>))"

definition EventManager_isListenerEnabled :: "int \<Rightarrow> EventListener \<Rightarrow> EventManager \<Rightarrow> bool" where
  "EventManager_isListenerEnabled ec listener em =
     ListenerList_isListenerEnabled ec listener (mListenerList em)"

definition EventManager_setDefaultListener ::
  "EventListener \<Rightarrow> EventManager \<Rightarrow> bool \<times> EventManager" where
  "EventManager_setDefaultListener listener em =
     (case ListenerList_setDefaultListener listener (mListenerList em) of
        (r, ll) \<Rightarrow> (r, em \<lparr> mListenerList := ll \<rparr>))"

definition EventManager_removeDefaultListener :: "EventManager \<Rightarrow> EventManager" where
  "EventManager_removeDefaultListener em =
     em \<lparr> mListenerList := ListenerList_removeDefaultListener (mListenerList em) \<rparr>"

definition EventManager_enableDefaultListener :: "bool \<Rightarrow> EventManager \<Rightarrow> EventManager" where
  "EventManager_enableDefaultListener enable em =
     em \<lparr> mListenerList := ListenerList_enableDefaultListener enable (mListenerList em) \<rparr>"

definition EventManager_isEventQueueEmpty :: "EventPriority \<Rightarrow> EventManager \<Rightarrow> bool" where
  "EventManager_isEventQueueEmpty pri em =
     (if pri = kHighPriority then EventQueue_isEmpty (mHighPriorityQueue em)
      else EventQueue_isEmpty (mLowPriorityQueue em))"

definition EventManager_isEventQueueFull :: "EventPriority \<Rightarrow> EventManager \<Rightarrow> bool" where
  "EventManager_isEventQueueFull pri em =
     (if pri = kHighPriority then EventQueue_isFull (mHighPriorityQueue em)
      else EventQueue_isFull (mLowPriorityQueue em))"

definition EventManager_getNumEventsInQueue :: "EventPriority \<Rightarrow> EventManager \<Rightarrow> int" where
  "EventManager_getNumEventsInQueue pri em =
     (if pri = kHighPriority then EventQueue_getNumEvents (mHighPriorityQueue em)
      else EventQueue_getNumEvents (mLowPriorityQueue em))"

definition EventManager_queueEvent ::
  "int \<Rightarrow> int \<Rightarrow> EventPriority \<Rightarrow> EventManager \<Rightarrow> bool \<times> EventManager" where
  "EventManager_queueEvent ec ep pri em =
     (if pri = kHighPriority
      then (case EventQueue_queueEvent ec ep (mHighPriorityQueue em) of
              (r, q) \<Rightarrow> (r, em \<lparr> mHighPriorityQueue := q \<rparr>))
      else (case EventQueue_queueEvent ec ep (mLowPriorityQueue em) of
              (r, q) \<Rightarrow> (r, em \<lparr> mLowPriorityQueue := q \<rparr>)))"

text \<open>\<^verbatim>\<open>processEvent\<close> declares \<^verbatim>\<open>eventCode\<close> and \<^verbatim>\<open>param\<close> without a value: \<open>locals\<close> is
  what the two variables hold when the function starts. The result is
  \<^verbatim>\<open>handledCount\<close>, the effects of the call in program order, and the manager after
  the call. The second \<^verbatim>\<open>if\<close> evaluates \<^verbatim>\<open>popEvent\<close> on the low-priority queue only when
  \<^verbatim>\<open>!handledCount\<close> holds (\<^verbatim>\<open>&&\<close> short-circuits).\<close>

definition EventManager_processEvent ::
  "int \<times> int \<Rightarrow> EventManager \<Rightarrow> int \<times> effect list \<times> EventManager" where
  "EventManager_processEvent locals em =
     (case EventQueue_popEvent locals (mHighPriorityQueue em) of (okH, localsH, hq) \<Rightarrow>
      case (if okH
            then (case ListenerList_sendEvent (fst localsH) (snd localsH) (mListenerList em) of
                    (n, calls) \<Rightarrow> (n, [Pop kHighPriority (Some localsH)] @ calls))
            else (0, [Pop kHighPriority None])) of (handledH, logH) \<Rightarrow>
      if handledH = 0
      then (case EventQueue_popEvent localsH (mLowPriorityQueue em) of (okL, localsL, lq) \<Rightarrow>
            if okL
            then (case ListenerList_sendEvent (fst localsL) (snd localsL) (mListenerList em) of
                    (n, calls) \<Rightarrow>
                      (n, logH @ [Pop kLowPriority (Some localsL)] @ calls,
                       em \<lparr> mHighPriorityQueue := hq, mLowPriorityQueue := lq \<rparr>))
            else (handledH, logH @ [Pop kLowPriority None],
                  em \<lparr> mHighPriorityQueue := hq, mLowPriorityQueue := lq \<rparr>))
      else (handledH, logH, em \<lparr> mHighPriorityQueue := hq \<rparr>))"

text \<open>One \<^verbatim>\<open>while\<close> loop of \<^verbatim>\<open>processAllEvents\<close> on the queue \<open>q\<close> of priority \<open>pri\<close>:
  the two loops of the source differ in the queue only. The loop ends when \<^verbatim>\<open>popEvent\<close>
  returns false; a result \<open>None\<close> is a loop that never ends.\<close>

partial_function (option) processAllEvents_loop ::
  "EventPriority \<Rightarrow> ListenerList \<Rightarrow> int \<times> int \<Rightarrow> int \<Rightarrow> effect list \<Rightarrow> EventQueue
     \<Rightarrow> ((int \<times> int) \<times> int \<times> effect list \<times> EventQueue) option" where
  "processAllEvents_loop pri ll locals handledCount log q =
     (case EventQueue_popEvent locals q of (ok, locals', q') \<Rightarrow>
        if ok
        then (case ListenerList_sendEvent (fst locals') (snd locals') ll of (n, calls) \<Rightarrow>
                processAllEvents_loop pri ll locals' (handledCount + n)
                  (log @ [Pop pri (Some locals')] @ calls) q')
        else Some (locals', handledCount, log @ [Pop pri None], q'))"

declare processAllEvents_loop.simps [code]

definition EventManager_processAllEvents ::
  "int \<times> int \<Rightarrow> EventManager \<Rightarrow> (int \<times> effect list \<times> EventManager) option" where
  "EventManager_processAllEvents locals em =
     (case processAllEvents_loop kHighPriority (mListenerList em) locals 0 []
             (mHighPriorityQueue em) of
        None \<Rightarrow> None
      | Some (localsH, handledH, logH, hq) \<Rightarrow>
          (case processAllEvents_loop kLowPriority (mListenerList em) localsH handledH logH
                  (mLowPriorityQueue em) of
             None \<Rightarrow> None
           | Some (localsL, handledL, logL, lq) \<Rightarrow>
               Some (handledL, logL,
                     em \<lparr> mHighPriorityQueue := hq, mLowPriorityQueue := lq \<rparr>)))"

definition EventManager_inv :: "EventManager \<Rightarrow> bool" where
  "EventManager_inv em =
     (EventQueue_inv (mHighPriorityQueue em) \<and>
      EventQueue_inv (mLowPriorityQueue em) \<and>
      ListenerList_inv (mListenerList em))"

section \<open>The events a queue holds\<close>

text \<open>The events between head and tail, oldest first: the slots
  \<open>head, head + 1, \<dots>\<close> (modulo the capacity), \<^verbatim>\<open>mNumEvents\<close> of them. A queue is
  well formed when it satisfies the structural invariant and its tail is \<^verbatim>\<open>mNumEvents\<close>
  slots after its head; the constructor makes such a queue and the two operations keep
  it so (\<open>EventQueue_ctor_wf\<close>, \<open>queueEvent_wf\<close>, \<open>popEvent_wf\<close>), so every queue a
  program can reach is well formed.\<close>

definition EventQueue_events :: "EventQueue \<Rightarrow> (int \<times> int) list" where
  "EventQueue_events q =
     map (\<lambda>i. (code (mEventQueue q ! nat ((mEventQueueHead q + int i) mod kEventQueueSize q)),
               param (mEventQueue q ! nat ((mEventQueueHead q + int i) mod kEventQueueSize q))))
         [0 ..< nat (mNumEvents q)]"

definition EventQueue_wf :: "EventQueue \<Rightarrow> bool" where
  "EventQueue_wf q =
     (EventQueue_inv q \<and>
      mEventQueueTail q = (mEventQueueHead q + mNumEvents q) mod kEventQueueSize q)"

definition EventManager_wf :: "EventManager \<Rightarrow> bool" where
  "EventManager_wf em =
     (EventQueue_wf (mHighPriorityQueue em) \<and>
      EventQueue_wf (mLowPriorityQueue em) \<and>
      ListenerList_inv (mListenerList em))"

text \<open>The managers a program can reach: the constructor makes one (with a positive queue
  capacity and a table of \<open>L\<close> slots), and every public operation leads from one to the
  next. Every such manager is well formed (\<open>EventManager_reachable_wf\<close>).\<close>

inductive EventManager_reachable :: "EventManager \<Rightarrow> bool" where
  ctor: "0 < K \<Longrightarrow> 0 \<le> L \<Longrightarrow> length slots0 = nat L \<Longrightarrow>
         EventManager_reachable (EventManager_ctor K L safety slots0 flag0)"
| queueEvent: "EventManager_reachable em \<Longrightarrow>
         EventManager_reachable (snd (EventManager_queueEvent ec ep pri em))"
| addListener: "EventManager_reachable em \<Longrightarrow>
         EventManager_reachable (snd (EventManager_addListener ec listener em))"
| removeListener: "EventManager_reachable em \<Longrightarrow>
         EventManager_reachable (snd (EventManager_removeListener ec listener em))"
| removeListener_cb: "EventManager_reachable em \<Longrightarrow>
         EventManager_reachable (snd (EventManager_removeListener_cb listener em))"
| enableListener: "EventManager_reachable em \<Longrightarrow>
         EventManager_reachable (snd (EventManager_enableListener ec listener enable em))"
| setDefaultListener: "EventManager_reachable em \<Longrightarrow>
         EventManager_reachable (snd (EventManager_setDefaultListener listener em))"
| removeDefaultListener: "EventManager_reachable em \<Longrightarrow>
         EventManager_reachable (EventManager_removeDefaultListener em)"
| enableDefaultListener: "EventManager_reachable em \<Longrightarrow>
         EventManager_reachable (EventManager_enableDefaultListener enable em)"
| processEvent: "EventManager_reachable em \<Longrightarrow>
         EventManager_reachable (snd (snd (EventManager_processEvent locals em)))"
| processAllEvents: "EventManager_reachable em \<Longrightarrow>
         EventManager_processAllEvents locals em = Some r \<Longrightarrow>
         EventManager_reachable (snd (snd r))"

text \<open>For the theorems about \<^verbatim>\<open>processEvent\<close>: the number of events a call takes from the
  queue of one priority (the fall of \<^verbatim>\<open>mNumEvents\<close> from the manager before the call to
  the manager after it), and the value \<^verbatim>\<open>handledCount\<close> has after the first \<^verbatim>\<open>if\<close>
  statement: 0 when the high-priority queue is empty, else the result of sending its
  oldest event to the listeners.\<close>

definition events_consumed :: "EventPriority \<Rightarrow> EventManager \<Rightarrow> EventManager \<Rightarrow> int" where
  "events_consumed pri em em' =
     (if pri = kHighPriority
      then mNumEvents (mHighPriorityQueue em) - mNumEvents (mHighPriorityQueue em')
      else mNumEvents (mLowPriorityQueue em) - mNumEvents (mLowPriorityQueue em'))"

definition high_handled :: "EventManager \<Rightarrow> int" where
  "high_handled em =
     (case EventQueue_events (mHighPriorityQueue em) of
        [] \<Rightarrow> 0
      | e # _ \<Rightarrow> fst (ListenerList_sendEvent (fst e) (snd e) (mListenerList em)))"

text \<open>For the theorems about \<^verbatim>\<open>processAllEvents\<close>: the handled count of one event (what
  \<^verbatim>\<open>sendEvent\<close> returns for it) and the effects of popping it from the queue of priority
  \<open>pri\<close> and sending it to the listeners.\<close>

definition handled_by :: "ListenerList \<Rightarrow> int \<times> int \<Rightarrow> int" where
  "handled_by ll e = fst (ListenerList_sendEvent (fst e) (snd e) ll)"

definition effects_of :: "EventPriority \<Rightarrow> ListenerList \<Rightarrow> int \<times> int \<Rightarrow> effect list" where
  "effects_of pri ll e = Pop pri (Some e) # snd (ListenerList_sendEvent (fst e) (snd e) ll)"

text \<open>For the theorem about \<^verbatim>\<open>removeListener( eventCode, listener )\<close>, in the words of the
  specification: the list without its first element that satisfies \<open>P\<close>, and the test
  that an entry matches both fields.\<close>

fun remove_first :: "('a \<Rightarrow> bool) \<Rightarrow> 'a list \<Rightarrow> 'a list" where
  "remove_first P [] = []"
| "remove_first P (x # xs) = (if P x then xs else x # remove_first P xs)"

definition is_pair :: "int \<Rightarrow> EventListener \<Rightarrow> ListenerItem \<Rightarrow> bool" where
  "is_pair ec listener e = (eventCode e = ec \<and> callback e = listener)"

section \<open>Sequences of calls and example states\<close>

text \<open>A caller that submits the events of a list one after the other, and a caller that
  calls \<^verbatim>\<open>popEvent\<close> \<open>n\<close> times with the same two variables: the results of the calls
  in order (for a pop, with the contents of the two variables after it) and the queue
  at the end.\<close>

fun queueEvents :: "(int \<times> int) list \<Rightarrow> EventQueue \<Rightarrow> bool list \<times> EventQueue" where
  "queueEvents [] q = ([], q)"
| "queueEvents (e # es) q =
     (case EventQueue_queueEvent (fst e) (snd e) q of (r, q') \<Rightarrow>
      case queueEvents es q' of (rs, q'') \<Rightarrow> (r # rs, q''))"

fun popEvents ::
  "nat \<Rightarrow> int \<times> int \<Rightarrow> EventQueue \<Rightarrow> (bool \<times> (int \<times> int)) list \<times> EventQueue" where
  "popEvents 0 out q = ([], q)"
| "popEvents (Suc n) out q =
     (case EventQueue_popEvent out q of (r, out', q') \<Rightarrow>
      case popEvents n out' q' of (rs, q'') \<Rightarrow> ((r, out') # rs, q''))"

text \<open>Two queues of capacity 2: the one the constructor and \<^verbatim>\<open>queueEvent(10, 1)\<close> make,
  and the one a further \<^verbatim>\<open>queueEvent(11, 2)\<close> makes of it.\<close>

definition example_queue_one :: EventQueue where
  "example_queue_one =
     \<lparr> kEventQueueSize = 2,
       mEventQueue = [\<lparr> code = 10, param = 1 \<rparr>, \<lparr> code = 200, param = 0 \<rparr>],
       mEventQueueHead = 0, mEventQueueTail = 1, mNumEvents = 1,
       mInterruptSafeMode = True \<rparr>"

definition example_queue_full :: EventQueue where
  "example_queue_full =
     \<lparr> kEventQueueSize = 2,
       mEventQueue = [\<lparr> code = 10, param = 1 \<rparr>, \<lparr> code = 11, param = 2 \<rparr>],
       mEventQueueHead = 0, mEventQueueTail = 0, mNumEvents = 2,
       mInterruptSafeMode = True \<rparr>"

text \<open>A table of capacity 4 with three registrations, the third disabled, and a default
  listener; and a table whose first slot in use has no listener (no sequence of calls
  makes such a table: \<^verbatim>\<open>addListener\<close> rejects a null listener).\<close>

definition example_registry :: ListenerList where
  "example_registry =
     \<lparr> kMaxListeners = 4,
       mNumListeners = 3,
       mListeners =
         [\<lparr> callback = 1, eventCode = 7, enabled = True \<rparr>,
          \<lparr> callback = 2, eventCode = 42, enabled = True \<rparr>,
          \<lparr> callback = 3, eventCode = 42, enabled = False \<rparr>,
          \<lparr> callback = 0, eventCode = 0, enabled = False \<rparr>],
       mDefaultCallback = 9,
       mDefaultCallbackEnabled = True \<rparr>"

definition example_registry_holes :: ListenerList where
  "example_registry_holes =
     \<lparr> kMaxListeners = 2,
       mNumListeners = 2,
       mListeners =
         [\<lparr> callback = 0, eventCode = 42, enabled = True \<rparr>,
          \<lparr> callback = 2, eventCode = 42, enabled = True \<rparr>],
       mDefaultCallback = 0,
       mDefaultCallbackEnabled = True \<rparr>"

text \<open>A table with two enabled entries for code 5, and listeners of which listener 1
  removes its own registration for the event code it is called with.\<close>

definition example_registry_pair :: ListenerList where
  "example_registry_pair =
     \<lparr> kMaxListeners = 2,
       mNumListeners = 2,
       mListeners =
         [\<lparr> callback = 1, eventCode = 5, enabled = True \<rparr>,
          \<lparr> callback = 2, eventCode = 5, enabled = True \<rparr>],
       mDefaultCallback = 0,
       mDefaultCallbackEnabled = False \<rparr>"

definition example_self_removing :: listener_action where
  "example_self_removing cb c a ll =
     (if cb = 1 then snd (ListenerList_removeListener c cb ll) else ll)"

text \<open>A manager with one high-priority event \<open>(7, 0)\<close>, one low-priority event
  \<open>(8, 0)\<close> and no listener, and the same manager with a listener for code 7.\<close>

definition example_manager :: EventManager where
  "example_manager =
     \<lparr> mHighPriorityQueue =
         \<lparr> kEventQueueSize = 2,
           mEventQueue = [\<lparr> code = 7, param = 0 \<rparr>, \<lparr> code = 200, param = 0 \<rparr>],
           mEventQueueHead = 0, mEventQueueTail = 1, mNumEvents = 1,
           mInterruptSafeMode = True \<rparr>,
       mLowPriorityQueue =
         \<lparr> kEventQueueSize = 2,
           mEventQueue = [\<lparr> code = 8, param = 0 \<rparr>, \<lparr> code = 200, param = 0 \<rparr>],
           mEventQueueHead = 0, mEventQueueTail = 1, mNumEvents = 1,
           mInterruptSafeMode = True \<rparr>,
       mListenerList =
         \<lparr> kMaxListeners = 1, mNumListeners = 0,
           mListeners = [\<lparr> callback = 0, eventCode = 0, enabled = False \<rparr>],
           mDefaultCallback = 0, mDefaultCallbackEnabled = False \<rparr> \<rparr>"

definition example_manager_listening :: EventManager where
  "example_manager_listening =
     example_manager
       \<lparr> mListenerList :=
           \<lparr> kMaxListeners = 1, mNumListeners = 1,
             mListeners = [\<lparr> callback = 1, eventCode = 7, enabled = True \<rparr>],
             mDefaultCallback = 0, mDefaultCallbackEnabled = False \<rparr> \<rparr>"

text \<open>The manager of the drain-all scenario: capacity 4, listeners 1 and 2 for code 100
  and listener 3 for code 101, three low-priority events and two high-priority events.\<close>

definition example_manager_five :: EventManager where
  "example_manager_five =
     snd (EventManager_queueEvent 101 5 kHighPriority
     (snd (EventManager_queueEvent 100 4 kHighPriority
     (snd (EventManager_queueEvent 102 3 kLowPriority
     (snd (EventManager_queueEvent 101 2 kLowPriority
     (snd (EventManager_queueEvent 100 1 kLowPriority
     (snd (EventManager_addListener 101 3
     (snd (EventManager_addListener 100 2
     (snd (EventManager_addListener 100 1
       (EventManager_ctor 4 4 kInterruptSafe
          (replicate 4 \<lparr> callback = 0, eventCode = 0, enabled = False \<rparr>) False))))))))))))))))"

text \<open>The table of capacity 4 that the constructor leaves.\<close>

definition example_registry_empty :: ListenerList where
  "example_registry_empty =
     ListenerList_ctor 4 (replicate 4 \<lparr> callback = 0, eventCode = 0, enabled = False \<rparr>) False"

section \<open>Theorems\<close>

lemma smod_nonneg_eq_mod: "0 \<le> a \<Longrightarrow> 0 < b \<Longrightarrow> (a::int) smod b = a mod b"
  by (simp add: smod_int_alt_def sgn_if)

text \<open>C7. On a queue whose count is 0, \<^verbatim>\<open>popEvent\<close> returns false, leaves the queue
  (count, head, tail and storage) as it was and writes nothing through its two output
  parameters.\<close>

theorem popEvent_empty_no_effect:
  "mNumEvents q = 0 \<Longrightarrow> EventQueue_popEvent out q = (False, out, q)"
  by (simp add: EventQueue_popEvent_def EventQueue_isEmpty_def)

theorem popEvent_empty_no_effect_witness:
  "mNumEvents (EventQueue_ctor 8 True) = 0 \<and>
   EventQueue_popEvent (17, 4) (EventQueue_ctor 8 True) = (False, (17, 4), EventQueue_ctor 8 True)"
  using popEvent_empty_no_effect [of "EventQueue_ctor 8 True" "(17, 4)"]
  by (simp add: EventQueue_ctor_def)


lemma EventElement_update_both [simp]:
  "(x :: EventElement) \<lparr> code := c, param := p \<rparr> = \<lparr> code = c, param = p \<rparr>"
  by (cases x) simp

lemma example_queue_one_reached:
  "example_queue_one = snd (EventQueue_queueEvent 10 1 (EventQueue_ctor 2 True))"
  by code_simp

subsection \<open>The events of a queue under the two operations\<close>

lemma mod_shift_inj:
  fixes h K i j :: int
  assumes "0 \<le> i" "i < K" "0 \<le> j" "j < K" "(h + i) mod K = (h + j) mod K"
  shows "i = j"
proof -
  from assms(5) have "K dvd ((h + i) - (h + j))"
    by (simp add: mod_eq_dvd_iff)
  then have "K dvd (i - j)" by simp
  moreover from assms have "\<bar>i - j\<bar> < K" by linarith
  ultimately have "i - j = 0"
    using zdvd_not_zless [of "\<bar>i - j\<bar>" K] by (cases "i - j = 0") auto
  then show ?thesis by simp
qed

lemma length_events [simp]: "length (EventQueue_events q) = nat (mNumEvents q)"
  by (simp add: EventQueue_events_def)

lemma EventQueue_ctor_inv: "0 < K \<Longrightarrow> EventQueue_inv (EventQueue_ctor K b)"
  by (simp add: EventQueue_inv_def EventQueue_ctor_def)

lemma EventQueue_ctor_wf: "0 < K \<Longrightarrow> EventQueue_wf (EventQueue_ctor K b)"
  by (simp add: EventQueue_wf_def EventQueue_inv_def EventQueue_ctor_def)

lemma EventQueue_ctor_events [simp]: "EventQueue_events (EventQueue_ctor K b) = []"
  by (simp add: EventQueue_events_def EventQueue_ctor_def)

lemma queueEvent_inv:
  "EventQueue_inv q \<Longrightarrow> EventQueue_inv (snd (EventQueue_queueEvent ec ep q))"
  by (auto simp: EventQueue_inv_def EventQueue_queueEvent_def EventQueue_isFull_def
      smod_nonneg_eq_mod)

lemma popEvent_inv:
  "EventQueue_inv q \<Longrightarrow> EventQueue_inv (snd (snd (EventQueue_popEvent out q)))"
  by (auto simp: EventQueue_inv_def EventQueue_popEvent_def EventQueue_isEmpty_def
      smod_nonneg_eq_mod)


lemma queueEvent_wf:
  "EventQueue_wf q \<Longrightarrow> EventQueue_wf (snd (EventQueue_queueEvent ec ep q))"
  unfolding EventQueue_wf_def
proof (intro conjI)
  assume a: "EventQueue_inv q \<and>
    mEventQueueTail q = (mEventQueueHead q + mNumEvents q) mod kEventQueueSize q"
  then show "EventQueue_inv (snd (EventQueue_queueEvent ec ep q))"
    by (simp add: queueEvent_inv)
  from a show "mEventQueueTail (snd (EventQueue_queueEvent ec ep q)) =
      (mEventQueueHead (snd (EventQueue_queueEvent ec ep q)) +
       mNumEvents (snd (EventQueue_queueEvent ec ep q))) mod
      kEventQueueSize (snd (EventQueue_queueEvent ec ep q))"
    by (simp add: EventQueue_inv_def EventQueue_queueEvent_def EventQueue_isFull_def
        smod_nonneg_eq_mod mod_simps add.assoc)
qed

lemma popEvent_wf:
  "EventQueue_wf q \<Longrightarrow> EventQueue_wf (snd (snd (EventQueue_popEvent out q)))"
  unfolding EventQueue_wf_def
proof (intro conjI)
  assume a: "EventQueue_inv q \<and>
    mEventQueueTail q = (mEventQueueHead q + mNumEvents q) mod kEventQueueSize q"
  then show "EventQueue_inv (snd (snd (EventQueue_popEvent out q)))"
    by (simp add: popEvent_inv)
  from a show "mEventQueueTail (snd (snd (EventQueue_popEvent out q))) =
      (mEventQueueHead (snd (snd (EventQueue_popEvent out q))) +
       mNumEvents (snd (snd (EventQueue_popEvent out q)))) mod
      kEventQueueSize (snd (snd (EventQueue_popEvent out q)))"
    by (simp add: EventQueue_inv_def EventQueue_popEvent_def EventQueue_isEmpty_def
        smod_nonneg_eq_mod mod_simps)
qed


lemma queueEvent_events:
  assumes wf: "EventQueue_wf q" and room: "mNumEvents q \<noteq> kEventQueueSize q"
  shows "EventQueue_queueEvent ec ep q = (True, snd (EventQueue_queueEvent ec ep q)) \<and>
         EventQueue_events (snd (EventQueue_queueEvent ec ep q)) = EventQueue_events q @ [(ec, ep)]"
proof -
  let ?K = "kEventQueueSize q" and ?h = "mEventQueueHead q" and ?n = "mNumEvents q"
  let ?xs = "mEventQueue q"
  from wf have inv: "0 < ?K" "length ?xs = nat ?K" "0 \<le> ?n" "?n \<le> ?K" "0 \<le> ?h" "?h < ?K"
    and tail: "mEventQueueTail q = (?h + ?n) mod ?K"
    by (simp_all add: EventQueue_wf_def EventQueue_inv_def)
  from room inv have n: "?n < ?K" by simp
  have t_lt: "nat ((?h + ?n) mod ?K) < length ?xs"
    using inv by simp
  have old: "(?h + int i) mod ?K \<noteq> (?h + ?n) mod ?K" if "i < nat ?n" for i
  proof
    assume eq: "(?h + int i) mod ?K = (?h + ?n) mod ?K"
    from that have lt: "int i < ?n" by linarith
    with n inv have "int i = ?n"
      by (intro mod_shift_inj [OF _ _ _ _ eq]) simp_all
    with lt show False by simp
  qed
  have old': "nat ((?h + ?n) mod ?K) \<noteq> nat ((?h + int i) mod ?K)" if "i < nat ?n" for i
    using old [OF that] inv by (simp add: nat_eq_iff)
  have upt: "[0 ..< nat (?n + 1)] = [0 ..< nat ?n] @ [nat ?n]"
    using inv by (simp add: nat_add_distrib)
  show ?thesis
    using room inv tail t_lt old'
    by (simp add: EventQueue_queueEvent_def EventQueue_isFull_def EventQueue_events_def upt)
qed


lemma popEvent_events:
  assumes wf: "EventQueue_wf q" and nonempty: "mNumEvents q \<noteq> 0"
  shows "EventQueue_popEvent out q =
           (True, hd (EventQueue_events q), snd (snd (EventQueue_popEvent out q))) \<and>
         EventQueue_events (snd (snd (EventQueue_popEvent out q))) = tl (EventQueue_events q)"
proof -
  let ?K = "kEventQueueSize q" and ?h = "mEventQueueHead q" and ?n = "mNumEvents q"
  let ?xs = "mEventQueue q"
  from wf have inv: "0 < ?K" "length ?xs = nat ?K" "0 \<le> ?n" "?n \<le> ?K" "0 \<le> ?h" "?h < ?K"
    by (simp_all add: EventQueue_wf_def EventQueue_inv_def)
  from nonempty inv have n: "0 < ?n" by simp
  have "nat ?n = Suc (nat (?n - 1))"
    using n by simp
  then have upt: "[0 ..< nat ?n] = 0 # map Suc [0 ..< nat (?n - 1)]"
    by (simp add: upt_conv_Cons map_Suc_upt del: upt_Suc)
  have shift: "((?h + 1) mod ?K + int i) mod ?K = (?h + int (Suc i)) mod ?K" for i
    by (simp add: mod_simps add.commute add.left_commute)
  have other: "(?h + int (Suc i)) mod ?K \<noteq> ?h" if "i < nat (?n - 1)" for i
  proof
    assume "(?h + int (Suc i)) mod ?K = ?h"
    with inv have eq: "(?h + int (Suc i)) mod ?K = (?h + 0) mod ?K" by simp
    from that inv have "int (Suc i) < ?K" by linarith
    with inv have "int (Suc i) = 0"
      by (intro mod_shift_inj [OF _ _ _ _ eq]) simp_all
    then show False by simp
  qed
  have other': "nat ?h \<noteq> nat ((?h + int (Suc i)) mod ?K)" if "i < nat (?n - 1)" for i
    using other [OF that] inv by (simp add: nat_eq_iff)
  show ?thesis
    using nonempty inv n other'
    by (simp add: EventQueue_popEvent_def EventQueue_isEmpty_def EventQueue_events_def upt
        smod_nonneg_eq_mod shift o_def del: of_nat_Suc)
qed


subsection \<open>First in, first out\<close>

lemma queueEvent_True_iff:
  "fst (EventQueue_queueEvent ec ep q) \<longleftrightarrow> mNumEvents q \<noteq> kEventQueueSize q"
  by (simp add: EventQueue_queueEvent_def EventQueue_isFull_def)

lemma queueEvents_Cons:
  "fst (queueEvents (e # es) q) =
     fst (EventQueue_queueEvent (fst e) (snd e) q) #
     fst (queueEvents es (snd (EventQueue_queueEvent (fst e) (snd e) q)))"
  "snd (queueEvents (e # es) q) =
     snd (queueEvents es (snd (EventQueue_queueEvent (fst e) (snd e) q)))"
  by (simp_all split: prod.splits)

lemma popEvents_Suc:
  "fst (popEvents (Suc n) out q) =
     (fst (EventQueue_popEvent out q), fst (snd (EventQueue_popEvent out q))) #
     fst (popEvents n (fst (snd (EventQueue_popEvent out q)))
            (snd (snd (EventQueue_popEvent out q))))"
  "snd (popEvents (Suc n) out q) =
     snd (popEvents n (fst (snd (EventQueue_popEvent out q)))
            (snd (snd (EventQueue_popEvent out q))))"
  by (simp_all split: prod.splits)

lemma queueEvents_events:
  "EventQueue_wf q \<Longrightarrow> list_all (\<lambda>r. r) (fst (queueEvents S q)) \<Longrightarrow>
   EventQueue_wf (snd (queueEvents S q)) \<and>
   EventQueue_events (snd (queueEvents S q)) = EventQueue_events q @ S"
proof (induction S arbitrary: q)
  case Nil
  then show ?case by simp
next
  case (Cons e S)
  let ?q' = "snd (EventQueue_queueEvent (fst e) (snd e) q)"
  from Cons.prems(2) have ok: "fst (EventQueue_queueEvent (fst e) (snd e) q)"
    and rest: "list_all (\<lambda>r. r) (fst (queueEvents S ?q'))"
    by (simp_all add: queueEvents_Cons del: queueEvents.simps)
  from ok have room: "mNumEvents q \<noteq> kEventQueueSize q"
    by (simp add: queueEvent_True_iff)
  from queueEvent_wf [OF Cons.prems(1)] have wf': "EventQueue_wf ?q'" .
  from queueEvent_events [OF Cons.prems(1) room, of "fst e" "snd e"]
  have ev: "EventQueue_events ?q' = EventQueue_events q @ [e]" by simp
  from Cons.IH [OF wf' rest] ev show ?case
    by (simp add: queueEvents_Cons del: queueEvents.simps)
qed

lemma popEvents_events:
  "EventQueue_wf q \<Longrightarrow> n \<le> length (EventQueue_events q) \<Longrightarrow>
   fst (popEvents n out q) = map (Pair True) (take n (EventQueue_events q)) \<and>
   EventQueue_wf (snd (popEvents n out q)) \<and>
   EventQueue_events (snd (popEvents n out q)) = drop n (EventQueue_events q)"
proof (induction n arbitrary: q out)
  case 0
  then show ?case by simp
next
  case (Suc n)
  let ?q' = "snd (snd (EventQueue_popEvent out q))"
  from Suc.prems(2) have nonempty: "mNumEvents q \<noteq> 0" by auto
  from popEvent_events [OF Suc.prems(1) nonempty, of out]
  have pop: "EventQueue_popEvent out q = (True, hd (EventQueue_events q), ?q')"
    and ev: "EventQueue_events ?q' = tl (EventQueue_events q)" by simp_all
  from popEvent_wf [OF Suc.prems(1)] have wf': "EventQueue_wf ?q'" .
  from Suc.prems(2) ev have le: "n \<le> length (EventQueue_events ?q')" by simp
  from Suc.prems(2) have ne: "EventQueue_events q \<noteq> []"
    by (auto simp del: length_events)
  have split_ev: "take (Suc n) (EventQueue_events q) = hd (EventQueue_events q) # take n (tl (EventQueue_events q))"
    using ne by (cases "EventQueue_events q") simp_all
  have drop_ev: "drop (Suc n) (EventQueue_events q) = drop n (tl (EventQueue_events q))"
    using ne by (cases "EventQueue_events q") simp_all
  from pop have pop_parts: "fst (EventQueue_popEvent out q) = True"
    "fst (snd (EventQueue_popEvent out q)) = hd (EventQueue_events q)"
    by (metis fst_conv, metis fst_conv snd_conv)
  from Suc.IH [OF wf' le, of "hd (EventQueue_events q)"] ev split_ev drop_ev pop_parts
  show ?case
    by (simp add: popEvents_Suc del: popEvents.simps)
qed

lemma queueEvents_all_succeed:
  "EventQueue_wf q \<Longrightarrow> length (EventQueue_events q) + length S \<le> nat (kEventQueueSize q) \<Longrightarrow>
   list_all (\<lambda>r. r) (fst (queueEvents S q)) \<and>
   kEventQueueSize (snd (queueEvents S q)) = kEventQueueSize q"
proof (induction S arbitrary: q)
  case Nil
  then show ?case by simp
next
  case (Cons e S)
  let ?q' = "snd (EventQueue_queueEvent (fst e) (snd e) q)"
  from Cons.prems have room: "mNumEvents q \<noteq> kEventQueueSize q"
    by (auto simp: EventQueue_wf_def EventQueue_inv_def)
  from queueEvent_events [OF Cons.prems(1) room, of "fst e" "snd e"]
  have ok: "fst (EventQueue_queueEvent (fst e) (snd e) q)"
    and ev: "EventQueue_events ?q' = EventQueue_events q @ [e]"
    by (metis fst_conv, simp)
  have K: "kEventQueueSize ?q' = kEventQueueSize q"
    by (simp add: EventQueue_queueEvent_def)
  from Cons.prems(2) ev K have "length (EventQueue_events ?q') + length S \<le> nat (kEventQueueSize ?q')"
    by (simp del: length_events)
  from Cons.IH [OF queueEvent_wf [OF Cons.prems(1)] this] ok K show ?case
    by (simp add: queueEvents_Cons del: queueEvents.simps)
qed

lemma queue_full_after_capacity:
  assumes "0 < K" "length S = nat K"
  shows "list_all (\<lambda>r. r) (fst (queueEvents S (EventQueue_ctor K b))) \<and>
         EventQueue_queueEvent ec ep (snd (queueEvents S (EventQueue_ctor K b))) =
           (False, snd (queueEvents S (EventQueue_ctor K b)))"
proof -
  let ?q0 = "EventQueue_ctor K b"
  have wf0: "EventQueue_wf ?q0" by (rule EventQueue_ctor_wf [OF assms(1)])
  have K0: "kEventQueueSize ?q0 = K" by (simp add: EventQueue_ctor_def)
  from assms K0 have le: "length (EventQueue_events ?q0) + length S \<le> nat (kEventQueueSize ?q0)"
    by simp
  note ok = queueEvents_all_succeed [OF wf0 le]
  from queueEvents_events [OF wf0 conjunct1 [OF ok]]
  have "length (EventQueue_events (snd (queueEvents S ?q0))) = length S" by simp
  then have "nat (mNumEvents (snd (queueEvents S ?q0))) = nat K"
    using assms by simp
  moreover from queueEvents_events [OF wf0 conjunct1 [OF ok]]
  have "0 \<le> mNumEvents (snd (queueEvents S ?q0))"
    by (simp add: EventQueue_wf_def EventQueue_inv_def)
  ultimately have "mNumEvents (snd (queueEvents S ?q0)) = kEventQueueSize (snd (queueEvents S ?q0))"
    using ok K0 assms(1) by simp
  with ok show ?thesis
    by (simp add: EventQueue_queueEvent_def EventQueue_isFull_def)
qed

text \<open>C3. A queue whose count equals its capacity rejects \<^verbatim>\<open>queueEvent(code, param)\<close>:
  the call returns false and the queue (count, head, tail and every slot) is as before.
  On every other queue the call returns true, the slot at tail holds \<open>(code, param)\<close>,
  tail is \<open>(tail + 1) mod capacity\<close> and the count is one more. So on a new queue
  exactly \<open>capacity\<close> submissions succeed, and the next one returns false and leaves the
  queue unchanged.\<close>

theorem queueEvent_full_or_store:
  "(mNumEvents q = kEventQueueSize q \<longrightarrow> EventQueue_queueEvent ec ep q = (False, q)) \<and>
   (mNumEvents q \<noteq> kEventQueueSize q \<and> EventQueue_inv q \<longrightarrow>
      EventQueue_queueEvent ec ep q =
        (True,
         q \<lparr> mEventQueue := (mEventQueue q)[nat (mEventQueueTail q) := \<lparr> code = ec, param = ep \<rparr>],
             mEventQueueTail := (mEventQueueTail q + 1) mod kEventQueueSize q,
             mNumEvents := mNumEvents q + 1 \<rparr>)) \<and>
   (0 < K \<and> length S = nat K \<longrightarrow>
      list_all (\<lambda>r. r) (fst (queueEvents S (EventQueue_ctor K b))) \<and>
      EventQueue_queueEvent ec ep (snd (queueEvents S (EventQueue_ctor K b))) =
        (False, snd (queueEvents S (EventQueue_ctor K b))))"
proof (intro conjI impI)
  assume "mNumEvents q = kEventQueueSize q"
  then show "EventQueue_queueEvent ec ep q = (False, q)"
    by (simp add: EventQueue_queueEvent_def EventQueue_isFull_def)
next
  assume "mNumEvents q \<noteq> kEventQueueSize q \<and> EventQueue_inv q"
  then show "EventQueue_queueEvent ec ep q =
        (True,
         q \<lparr> mEventQueue := (mEventQueue q)[nat (mEventQueueTail q) := \<lparr> code = ec, param = ep \<rparr>],
             mEventQueueTail := (mEventQueueTail q + 1) mod kEventQueueSize q,
             mNumEvents := mNumEvents q + 1 \<rparr>)"
    by (simp add: EventQueue_queueEvent_def EventQueue_isFull_def EventQueue_inv_def
        smod_nonneg_eq_mod)
next
  assume a: "0 < K \<and> length S = nat K"
  then have K: "0 < K" and S: "length S = nat K" by simp_all
  from queue_full_after_capacity [OF K S, of b ec ep]
  show "list_all (\<lambda>r. r) (fst (queueEvents S (EventQueue_ctor K b)))"
    and "EventQueue_queueEvent ec ep (snd (queueEvents S (EventQueue_ctor K b))) =
        (False, snd (queueEvents S (EventQueue_ctor K b)))"
    by simp_all
qed

theorem queueEvent_full_or_store_witness:
  "mNumEvents example_queue_full = kEventQueueSize example_queue_full \<and>
   EventQueue_queueEvent 12 3 example_queue_full = (False, example_queue_full) \<and>
   mNumEvents example_queue_one \<noteq> kEventQueueSize example_queue_one \<and>
   EventQueue_inv example_queue_one \<and>
   EventQueue_queueEvent 11 2 example_queue_one = (True, example_queue_full) \<and>
   (0 :: int) < 2 \<and> length [(10, 1), (11, 2) :: int \<times> int] = nat 2 \<and>
   list_all (\<lambda>r. r) (fst (queueEvents [(10, 1), (11, 2)] (EventQueue_ctor 2 True))) \<and>
   EventQueue_queueEvent 12 3 (snd (queueEvents [(10, 1), (11, 2)] (EventQueue_ctor 2 True))) =
     (False, snd (queueEvents [(10, 1), (11, 2)] (EventQueue_ctor 2 True)))"
proof -
  have full: "mNumEvents example_queue_full = kEventQueueSize example_queue_full"
    by (simp add: example_queue_full_def)
  have room: "mNumEvents example_queue_one \<noteq> kEventQueueSize example_queue_one"
    by (simp add: example_queue_one_def)
  have inv: "EventQueue_inv example_queue_one"
    by (simp add: example_queue_one_def EventQueue_inv_def)
  have upd: "example_queue_one
      \<lparr> mEventQueue := (mEventQueue example_queue_one)
           [nat (mEventQueueTail example_queue_one) := \<lparr> code = 11, param = 2 \<rparr>],
        mEventQueueTail :=
          (mEventQueueTail example_queue_one + 1) mod kEventQueueSize example_queue_one,
        mNumEvents := mNumEvents example_queue_one + 1 \<rparr> = example_queue_full"
    by (simp add: example_queue_one_def example_queue_full_def)
  have cap: "(0 :: int) < 2 \<and> length [(10, 1), (11, 2) :: int \<times> int] = nat 2"
    by simp
  from queueEvent_full_or_store [of example_queue_full 12 3 2 "[(10, 1), (11, 2)]" True]
    queueEvent_full_or_store [of example_queue_one 11 2 2 "[(10, 1), (11, 2)]" True]
    full room inv cap
  show ?thesis unfolding upd by blast
qed

text \<open>C4, as amended. Let a well-formed queue (every reachable queue is one) hold the
  events \<open>P\<close>, oldest first, and let the submissions \<open>S\<^sub>1 \<dots> S\<^sub>n\<close> all succeed with no
  pop in between. Then the next \<open>length P + n\<close> calls of \<^verbatim>\<open>popEvent\<close> all return true and
  deliver \<open>P\<close> followed by \<open>S\<^sub>1 \<dots> S\<^sub>n\<close>, in this order. When the queue was empty before
  the submissions, the next \<open>n\<close> calls deliver exactly \<open>S\<^sub>1 \<dots> S\<^sub>n\<close>.\<close>

theorem FIFO_after_pending:
  assumes "EventQueue_wf q" and "list_all (\<lambda>r. r) (fst (queueEvents S q))"
  shows "fst (popEvents (length (EventQueue_events q) + length S) out (snd (queueEvents S q))) =
           map (Pair True) (EventQueue_events q @ S) \<and>
         (mNumEvents q = 0 \<longrightarrow>
            fst (popEvents (length S) out (snd (queueEvents S q))) = map (Pair True) S)"
proof -
  from queueEvents_events [OF assms]
  have wf': "EventQueue_wf (snd (queueEvents S q))"
    and ev: "EventQueue_events (snd (queueEvents S q)) = EventQueue_events q @ S"
    by simp_all
  have all: "fst (popEvents (length (EventQueue_events q) + length S) out (snd (queueEvents S q))) =
           map (Pair True) (EventQueue_events q @ S)"
    using popEvents_events [OF wf', of "length (EventQueue_events q) + length S" out] ev
    by simp
  have "EventQueue_events q = []" if "mNumEvents q = 0"
    using that by (simp add: EventQueue_events_def)
  with all show ?thesis by auto
qed

text \<open>C4 as stated fails on a reachable queue that already holds an event: after
  \<^verbatim>\<open>queueEvent(10, 1)\<close> on a new queue, the submission \<open>S\<^sub>1 = (11, 2)\<close> succeeds and the next
  pop returns \<open>(10, 1)\<close>, not \<open>S\<^sub>1\<close>.\<close>

theorem FIFO_counterexample:
  "EventQueue_wf example_queue_one \<and>
   example_queue_one = snd (EventQueue_queueEvent 10 1 (EventQueue_ctor 2 True)) \<and>
   fst (queueEvents [(11, 2)] example_queue_one) = [True] \<and>
   fst (popEvents 1 (0, 0) (snd (queueEvents [(11, 2)] example_queue_one))) = [(True, (10, 1))] \<and>
   fst (popEvents 1 (0, 0) (snd (queueEvents [(11, 2)] example_queue_one))) \<noteq> map (Pair True) [(11, 2)]"
  by code_simp

theorem FIFO_after_pending_witness:
  "EventQueue_wf example_queue_one \<and>
   list_all (\<lambda>r. r) (fst (queueEvents [(11, 2)] example_queue_one)) \<and>
   fst (popEvents (length (EventQueue_events example_queue_one) + length [(11, 2) :: int \<times> int]) (0, 0)
          (snd (queueEvents [(11, 2)] example_queue_one))) =
     map (Pair True) (EventQueue_events example_queue_one @ [(11, 2)]) \<and>
   EventQueue_events example_queue_one @ [(11, 2)] = [(10, 1), (11, 2)] \<and>
   mNumEvents (EventQueue_ctor 2 True) = 0 \<and>
   fst (popEvents (length [(10, 1) :: int \<times> int, (11, 2)]) (0, 0)
          (snd (queueEvents [(10, 1), (11, 2)] (EventQueue_ctor 2 True)))) =
     map (Pair True) [(10, 1), (11, 2)]"
proof -
  have wf1: "EventQueue_wf example_queue_one" by code_simp
  have ok1: "list_all (\<lambda>r. r) (fst (queueEvents [(11, 2)] example_queue_one))" by code_simp
  have ev: "EventQueue_events example_queue_one @ [(11, 2)] = [(10, 1), (11, 2)]" by code_simp
  have wf0: "EventQueue_wf (EventQueue_ctor 2 True)" by code_simp
  have ok0: "list_all (\<lambda>r. r) (fst (queueEvents [(10, 1), (11, 2)] (EventQueue_ctor 2 True)))" by code_simp
  have e0: "mNumEvents (EventQueue_ctor 2 True) = 0" by code_simp
  from FIFO_after_pending [OF wf1 ok1, of "(0, 0)"] FIFO_after_pending [OF wf0 ok0, of "(0, 0)"]
    wf1 ok1 ev e0
  show ?thesis by blast
qed


subsection \<open>Dispatch\<close>

lemma ListenerItem_copy [simp]:
  "(x :: ListenerItem) \<lparr> callback := callback y, eventCode := eventCode y, enabled := enabled y \<rparr> = y"
  by (cases x, cases y) simp

lemma entries_drop_step:
  assumes "0 \<le> i" "i < mNumListeners ll" "mNumListeners ll \<le> int (length (mListeners ll))"
  shows "drop (nat i) (ListenerList_entries ll) =
           (mListeners ll ! nat i) # drop (nat (i + 1)) (ListenerList_entries ll)"
proof -
  from assms have lt: "nat i < length (ListenerList_entries ll)"
    by (simp add: ListenerList_entries_def)
  from assms have "ListenerList_entries ll ! nat i = mListeners ll ! nat i"
    by (simp add: ListenerList_entries_def)
  moreover from assms have "nat (i + 1) = Suc (nat i)" by simp
  ultimately show ?thesis
    using Cons_nth_drop_Suc [OF lt] by simp
qed

lemma entries_drop_end:
  assumes "\<not> i < mNumListeners ll"
  shows "drop (nat i) (ListenerList_entries ll) = []"
  using assms by (simp add: ListenerList_entries_def)

lemma sendEvent_loop_eq:
  assumes "0 \<le> i" "mNumListeners ll \<le> int (length (mListeners ll))"
  shows "sendEvent_loop ec p ll i handlerCount calls =
     (handlerCount +
        int (length (filter (\<lambda>e. callback e \<noteq> 0 \<and> eventCode e = ec \<and> enabled e)
               (drop (nat i) (ListenerList_entries ll)))),
      calls @ map (\<lambda>e. Call (callback e) ec p)
        (filter (\<lambda>e. callback e \<noteq> 0 \<and> eventCode e = ec \<and> enabled e)
           (drop (nat i) (ListenerList_entries ll))))"
  using assms
proof (induction ec p ll i handlerCount calls rule: sendEvent_loop.induct)
  case (1 ec p ll i handlerCount calls)
  show ?case
  proof (cases "i < mNumListeners ll")
    case False
    then show ?thesis
      by (simp add: sendEvent_loop.simps [of ec p ll i] entries_drop_end)
  next
    case True
    note step = entries_drop_step [OF "1.prems"(1) True "1.prems"(2)]
    from "1.prems" have nonneg: "0 \<le> i + 1" by simp
    show ?thesis
    proof (cases "callback (mListeners ll ! nat i) \<noteq> 0
               \<and> eventCode (mListeners ll ! nat i) = ec
               \<and> enabled (mListeners ll ! nat i)")
      case match: True
      from "1.IH"(1) [OF True match nonneg "1.prems"(2)] True match show ?thesis
        by (simp add: sendEvent_loop.simps [of ec p ll i] step)
    next
      case nomatch: False
      from "1.IH"(2) [OF True nomatch nonneg "1.prems"(2)] True nomatch show ?thesis
        by (auto simp: sendEvent_loop.simps [of ec p ll i] step)
    qed
  qed
qed

lemma sendEvent_loop_no_null:
  "Call 0 c a \<notin> set calls \<Longrightarrow> Call 0 c a \<notin> set (snd (sendEvent_loop ec p ll i handlerCount calls))"
proof (induction ec p ll i handlerCount calls rule: sendEvent_loop.induct)
  case (1 ec p ll i handlerCount calls)
  show ?case
  proof (cases "i < mNumListeners ll")
    case False
    with "1.prems" show ?thesis
      by (simp add: sendEvent_loop.simps [of ec p ll i])
  next
    case True
    show ?thesis
    proof (cases "callback (mListeners ll ! nat i) \<noteq> 0
               \<and> eventCode (mListeners ll ! nat i) = ec
               \<and> enabled (mListeners ll ! nat i)")
      case match: True
      from "1.prems" match
      have "Call 0 c a \<notin> set (calls @ [Call (callback (mListeners ll ! nat i)) ec p])"
        by auto
      from "1.IH"(1) [OF True match this] True match show ?thesis
        by (simp add: sendEvent_loop.simps [of ec p ll i])
    next
      case nomatch: False
      from "1.IH"(2) [OF True nomatch "1.prems"] True nomatch show ?thesis
        by (auto simp: sendEvent_loop.simps [of ec p ll i])
    qed
  qed
qed


lemma sendEvent_eq:
  assumes "ListenerList_bounds ll"
  shows "ListenerList_sendEvent ec p ll =
     (if filter (\<lambda>e. callback e \<noteq> 0 \<and> eventCode e = ec \<and> enabled e) (ListenerList_entries ll) = []
         \<and> mDefaultCallback ll \<noteq> 0 \<and> mDefaultCallbackEnabled ll
      then (1, [Call (mDefaultCallback ll) ec p])
      else (int (length (filter (\<lambda>e. callback e \<noteq> 0 \<and> eventCode e = ec \<and> enabled e)
                           (ListenerList_entries ll))),
            map (\<lambda>e. Call (callback e) ec p)
              (filter (\<lambda>e. callback e \<noteq> 0 \<and> eventCode e = ec \<and> enabled e)
                 (ListenerList_entries ll))))"
proof -
  from assms have le: "mNumListeners ll \<le> int (length (mListeners ll))"
    by (simp add: ListenerList_bounds_def)
  show ?thesis
    by (simp add: ListenerList_sendEvent_def sendEvent_loop_eq [OF order_refl le])
qed

lemma filter_nonnull:
  "list_all (\<lambda>e. callback e \<noteq> 0) xs \<Longrightarrow>
   filter (\<lambda>e. callback e \<noteq> 0 \<and> eventCode e = ec \<and> enabled e) xs =
   filter (\<lambda>e. eventCode e = ec \<and> enabled e) xs"
  by (induction xs) auto

text \<open>C10. \<^verbatim>\<open>sendEvent\<close> never calls the null pointer, in any state of the table. The scan
  skips an entry whose listener is null, and with a null default listener the default
  branch makes no call whatever the enabled flag holds: when no entry matches, the
  result is 0 and nothing is called, also after \<^verbatim>\<open>enableDefaultListener(true)\<close>; so it is
  for the table the constructor leaves, whatever its flag and slots hold.\<close>

theorem sendEvent_never_calls_null:
  "Call 0 c a \<notin> set (snd (ListenerList_sendEvent ec p ll)) \<and>
   (ListenerList_bounds ll \<and> mDefaultCallback ll = 0 \<longrightarrow>
      ListenerList_sendEvent ec p ll =
        (int (length (filter (\<lambda>e. callback e \<noteq> 0 \<and> eventCode e = ec \<and> enabled e)
                        (ListenerList_entries ll))),
         map (\<lambda>e. Call (callback e) ec p)
           (filter (\<lambda>e. callback e \<noteq> 0 \<and> eventCode e = ec \<and> enabled e)
              (ListenerList_entries ll)))) \<and>
   (ListenerList_bounds ll \<and> mDefaultCallback ll = 0 \<and>
    filter (\<lambda>e. callback e \<noteq> 0 \<and> eventCode e = ec \<and> enabled e) (ListenerList_entries ll) = [] \<longrightarrow>
      ListenerList_sendEvent ec p (ListenerList_enableDefaultListener True ll) = (0, [])) \<and>
   ListenerList_sendEvent ec p
     (ListenerList_enableDefaultListener True (ListenerList_ctor L slots0 flag0)) = (0, [])"
proof (intro conjI impI)
  have "Call 0 c a \<notin> set (snd (sendEvent_loop ec p ll 0 0 []))"
    by (rule sendEvent_loop_no_null) simp
  then show "Call 0 c a \<notin> set (snd (ListenerList_sendEvent ec p ll))"
    by (auto simp: ListenerList_sendEvent_def split: prod.splits if_splits)
next
  assume "ListenerList_bounds ll \<and> mDefaultCallback ll = 0"
  then show "ListenerList_sendEvent ec p ll =
        (int (length (filter (\<lambda>e. callback e \<noteq> 0 \<and> eventCode e = ec \<and> enabled e)
                        (ListenerList_entries ll))),
         map (\<lambda>e. Call (callback e) ec p)
           (filter (\<lambda>e. callback e \<noteq> 0 \<and> eventCode e = ec \<and> enabled e)
              (ListenerList_entries ll)))"
    by (simp add: sendEvent_eq)
next
  assume a: "ListenerList_bounds ll \<and> mDefaultCallback ll = 0 \<and>
    filter (\<lambda>e. callback e \<noteq> 0 \<and> eventCode e = ec \<and> enabled e) (ListenerList_entries ll) = []"
  then have "ListenerList_bounds (ListenerList_enableDefaultListener True ll)"
    by (simp add: ListenerList_bounds_def ListenerList_enableDefaultListener_def)
  from sendEvent_eq [OF this] a
  show "ListenerList_sendEvent ec p (ListenerList_enableDefaultListener True ll) = (0, [])"
    by (simp add: ListenerList_enableDefaultListener_def ListenerList_entries_def)
next
  show "ListenerList_sendEvent ec p
     (ListenerList_enableDefaultListener True (ListenerList_ctor L slots0 flag0)) = (0, [])"
    by (simp add: ListenerList_sendEvent_def ListenerList_enableDefaultListener_def
        ListenerList_ctor_def sendEvent_loop.simps)
qed

theorem sendEvent_never_calls_null_witness:
  "ListenerList_bounds example_registry_holes \<and> mDefaultCallback example_registry_holes = 0 \<and>
   ListenerList_sendEvent 42 5 example_registry_holes = (1, [Call 2 42 5]) \<and>
   ListenerList_sendEvent 8 5 example_registry_holes = (0, []) \<and>
   filter (\<lambda>e. callback e \<noteq> 0 \<and> eventCode e = 8 \<and> enabled e)
     (ListenerList_entries example_registry_holes) = [] \<and>
   ListenerList_sendEvent 8 5 (ListenerList_enableDefaultListener True example_registry_holes) = (0, [])"
proof -
  have f: "filter (\<lambda>e. callback e \<noteq> 0 \<and> eventCode e = 8 \<and> enabled e)
     (ListenerList_entries example_registry_holes) = []" by code_simp
  have b: "ListenerList_bounds example_registry_holes \<and> mDefaultCallback example_registry_holes = 0"
    by code_simp
  have r1: "(int (length (filter (\<lambda>e. callback e \<noteq> 0 \<and> eventCode e = 42 \<and> enabled e)
                        (ListenerList_entries example_registry_holes))),
         map (\<lambda>e. Call (callback e) 42 5)
           (filter (\<lambda>e. callback e \<noteq> 0 \<and> eventCode e = 42 \<and> enabled e)
              (ListenerList_entries example_registry_holes))) = (1, [Call 2 42 5])"
    by code_simp
  have r2: "(int (length (filter (\<lambda>e. callback e \<noteq> 0 \<and> eventCode e = 8 \<and> enabled e)
                        (ListenerList_entries example_registry_holes))),
         map (\<lambda>e. Call (callback e) 8 5)
           (filter (\<lambda>e. callback e \<noteq> 0 \<and> eventCode e = 8 \<and> enabled e)
              (ListenerList_entries example_registry_holes))) = (0, [])"
    by code_simp
  from sendEvent_never_calls_null [of 0 0 42 5 example_registry_holes]
    sendEvent_never_calls_null [of 0 0 8 5 example_registry_holes] b f
  show ?thesis unfolding r1 r2 by blast
qed


subsection \<open>processEvent\<close>

lemma example_manager_reached:
  "example_manager =
     snd (EventManager_queueEvent 8 0 kLowPriority
       (snd (EventManager_queueEvent 7 0 kHighPriority
         (EventManager_ctor 2 1 kInterruptSafe [\<lparr> callback = 0, eventCode = 0, enabled = False \<rparr>] False))))"
  by code_simp

lemma example_manager_listening_reached:
  "example_manager_listening = snd (EventManager_addListener 7 1 example_manager)"
  by code_simp

lemma events_Nil_iff: "EventQueue_wf q \<Longrightarrow> EventQueue_events q = [] \<longleftrightarrow> mNumEvents q = 0"
  by (auto simp: EventQueue_events_def EventQueue_wf_def EventQueue_inv_def)

lemma popEvent_Nil:
  "EventQueue_wf q \<Longrightarrow> EventQueue_events q = [] \<Longrightarrow> EventQueue_popEvent out q = (False, out, q)"
  by (simp add: events_Nil_iff EventQueue_popEvent_def EventQueue_isEmpty_def)

lemma popEvent_Cons:
  assumes "EventQueue_wf q" "EventQueue_events q \<noteq> []"
  shows "EventQueue_popEvent out q =
           (True, hd (EventQueue_events q), snd (snd (EventQueue_popEvent out q)))"
    and "EventQueue_events (snd (snd (EventQueue_popEvent out q))) = tl (EventQueue_events q)"
    and "mNumEvents (snd (snd (EventQueue_popEvent out q))) = mNumEvents q - 1"
proof -
  from assms have ne: "mNumEvents q \<noteq> 0" by (simp add: events_Nil_iff)
  from popEvent_events [OF assms(1) ne, of out]
  show "EventQueue_popEvent out q =
           (True, hd (EventQueue_events q), snd (snd (EventQueue_popEvent out q)))"
    and "EventQueue_events (snd (snd (EventQueue_popEvent out q))) = tl (EventQueue_events q)"
    by simp_all
  from ne show "mNumEvents (snd (snd (EventQueue_popEvent out q))) = mNumEvents q - 1"
    by (simp add: EventQueue_popEvent_def EventQueue_isEmpty_def)
qed

lemma popEvent_queue_indep:
  "snd (snd (EventQueue_popEvent out q)) = snd (snd (EventQueue_popEvent out' q))"
  by (simp add: EventQueue_popEvent_def)


lemma popEvent_Cons_parts:
  assumes "EventQueue_wf q" "EventQueue_events q \<noteq> []"
  shows "fst (EventQueue_popEvent out q)"
    and "fst (snd (EventQueue_popEvent out q)) = hd (EventQueue_events q)"
  using popEvent_Cons(1) [OF assms, of out] by (metis fst_conv, metis fst_conv snd_conv)

lemma processEvent_both_empty:
  assumes "EventManager_wf em"
    and "EventQueue_events (mHighPriorityQueue em) = []"
    and "EventQueue_events (mLowPriorityQueue em) = []"
  shows "EventManager_processEvent locals em =
           (0, [Pop kHighPriority None, Pop kLowPriority None], em)"
  using assms
  by (simp add: EventManager_processEvent_def EventManager_wf_def popEvent_Nil)

lemma processEvent_low_only:
  assumes "EventManager_wf em"
    and "EventQueue_events (mHighPriorityQueue em) = []"
    and "EventQueue_events (mLowPriorityQueue em) \<noteq> []"
  shows "EventManager_processEvent locals em =
           (fst (ListenerList_sendEvent (fst (hd (EventQueue_events (mLowPriorityQueue em))))
                   (snd (hd (EventQueue_events (mLowPriorityQueue em)))) (mListenerList em)),
            [Pop kHighPriority None, Pop kLowPriority (Some (hd (EventQueue_events (mLowPriorityQueue em))))]
              @ snd (ListenerList_sendEvent (fst (hd (EventQueue_events (mLowPriorityQueue em))))
                   (snd (hd (EventQueue_events (mLowPriorityQueue em)))) (mListenerList em)),
            em \<lparr> mLowPriorityQueue := snd (snd (EventQueue_popEvent locals (mLowPriorityQueue em))) \<rparr>)"
proof -
  from assms have wfh: "EventQueue_wf (mHighPriorityQueue em)"
    and wfl: "EventQueue_wf (mLowPriorityQueue em)"
    by (simp_all add: EventManager_wf_def)
  show ?thesis
    by (simp add: EventManager_processEvent_def case_prod_beta
        popEvent_Nil [OF wfh assms(2)] popEvent_Cons_parts [OF wfl assms(3)])
qed

lemma processEvent_high_handled:
  assumes "EventManager_wf em"
    and "EventQueue_events (mHighPriorityQueue em) \<noteq> []"
    and "fst (ListenerList_sendEvent (fst (hd (EventQueue_events (mHighPriorityQueue em))))
                   (snd (hd (EventQueue_events (mHighPriorityQueue em)))) (mListenerList em)) \<noteq> 0"
  shows "EventManager_processEvent locals em =
           (fst (ListenerList_sendEvent (fst (hd (EventQueue_events (mHighPriorityQueue em))))
                   (snd (hd (EventQueue_events (mHighPriorityQueue em)))) (mListenerList em)),
            Pop kHighPriority (Some (hd (EventQueue_events (mHighPriorityQueue em))))
              # snd (ListenerList_sendEvent (fst (hd (EventQueue_events (mHighPriorityQueue em))))
                   (snd (hd (EventQueue_events (mHighPriorityQueue em)))) (mListenerList em)),
            em \<lparr> mHighPriorityQueue := snd (snd (EventQueue_popEvent locals (mHighPriorityQueue em))) \<rparr>)"
proof -
  from assms have wfh: "EventQueue_wf (mHighPriorityQueue em)"
    by (simp_all add: EventManager_wf_def)
  show ?thesis
    using assms(3)
    by (simp add: EventManager_processEvent_def case_prod_beta
        popEvent_Cons_parts [OF wfh assms(2)])
qed

lemma processEvent_high_unhandled_low_empty:
  assumes "EventManager_wf em"
    and "EventQueue_events (mHighPriorityQueue em) \<noteq> []"
    and "fst (ListenerList_sendEvent (fst (hd (EventQueue_events (mHighPriorityQueue em))))
                   (snd (hd (EventQueue_events (mHighPriorityQueue em)))) (mListenerList em)) = 0"
    and "EventQueue_events (mLowPriorityQueue em) = []"
  shows "EventManager_processEvent locals em =
           (0,
            Pop kHighPriority (Some (hd (EventQueue_events (mHighPriorityQueue em))))
              # snd (ListenerList_sendEvent (fst (hd (EventQueue_events (mHighPriorityQueue em))))
                   (snd (hd (EventQueue_events (mHighPriorityQueue em)))) (mListenerList em))
              @ [Pop kLowPriority None],
            em \<lparr> mHighPriorityQueue := snd (snd (EventQueue_popEvent locals (mHighPriorityQueue em))) \<rparr>)"
proof -
  from assms have wfh: "EventQueue_wf (mHighPriorityQueue em)"
    and wfl: "EventQueue_wf (mLowPriorityQueue em)"
    by (simp_all add: EventManager_wf_def)
  show ?thesis
    using assms(3)
    by (simp add: EventManager_processEvent_def case_prod_beta
        popEvent_Cons_parts [OF wfh assms(2)] popEvent_Nil [OF wfl assms(4)])
qed

lemma processEvent_high_unhandled_low:
  assumes "EventManager_wf em"
    and "EventQueue_events (mHighPriorityQueue em) \<noteq> []"
    and "fst (ListenerList_sendEvent (fst (hd (EventQueue_events (mHighPriorityQueue em))))
                   (snd (hd (EventQueue_events (mHighPriorityQueue em)))) (mListenerList em)) = 0"
    and "EventQueue_events (mLowPriorityQueue em) \<noteq> []"
  shows "EventManager_processEvent locals em =
           (fst (ListenerList_sendEvent (fst (hd (EventQueue_events (mLowPriorityQueue em))))
                   (snd (hd (EventQueue_events (mLowPriorityQueue em)))) (mListenerList em)),
            Pop kHighPriority (Some (hd (EventQueue_events (mHighPriorityQueue em))))
              # snd (ListenerList_sendEvent (fst (hd (EventQueue_events (mHighPriorityQueue em))))
                   (snd (hd (EventQueue_events (mHighPriorityQueue em)))) (mListenerList em))
              @ Pop kLowPriority (Some (hd (EventQueue_events (mLowPriorityQueue em))))
              # snd (ListenerList_sendEvent (fst (hd (EventQueue_events (mLowPriorityQueue em))))
                   (snd (hd (EventQueue_events (mLowPriorityQueue em)))) (mListenerList em)),
            em \<lparr> mHighPriorityQueue := snd (snd (EventQueue_popEvent locals (mHighPriorityQueue em))),
                 mLowPriorityQueue :=
                   snd (snd (EventQueue_popEvent (hd (EventQueue_events (mHighPriorityQueue em)))
                               (mLowPriorityQueue em))) \<rparr>)"
proof -
  from assms have wfh: "EventQueue_wf (mHighPriorityQueue em)"
    and wfl: "EventQueue_wf (mLowPriorityQueue em)"
    by (simp_all add: EventManager_wf_def)
  show ?thesis
    using assms(3)
    by (simp add: EventManager_processEvent_def case_prod_beta
        popEvent_Cons_parts [OF wfh assms(2)] popEvent_Cons_parts [OF wfl assms(4)])
qed




lemma high_handled_Nil:
  "EventQueue_events (mHighPriorityQueue em) = [] \<Longrightarrow> high_handled em = 0"
  by (simp add: high_handled_def)

lemma high_handled_Cons:
  "EventQueue_events (mHighPriorityQueue em) \<noteq> [] \<Longrightarrow>
   high_handled em =
     fst (ListenerList_sendEvent (fst (hd (EventQueue_events (mHighPriorityQueue em))))
           (snd (hd (EventQueue_events (mHighPriorityQueue em)))) (mListenerList em))"
  by (cases "EventQueue_events (mHighPriorityQueue em)") (simp_all add: high_handled_def)



text \<open>C1, as amended. In a well-formed manager, one call of \<^verbatim>\<open>processEvent\<close> takes at most
  one event from each queue. It takes one from each in the same call exactly when both
  queues hold events and the high-priority event it popped got a handled count of 0;
  when that count is positive it takes that one event and leaves the low-priority
  queue alone.\<close>

theorem processEvent_consumes:
  assumes "EventManager_wf em"
  shows "events_consumed kHighPriority em (snd (snd (EventManager_processEvent locals em))) \<in> {0, 1} \<and>
    events_consumed kLowPriority em (snd (snd (EventManager_processEvent locals em))) \<in> {0, 1} \<and>
    (events_consumed kHighPriority em (snd (snd (EventManager_processEvent locals em))) = 1 \<and>
     events_consumed kLowPriority em (snd (snd (EventManager_processEvent locals em))) = 1
       \<longleftrightarrow> mNumEvents (mHighPriorityQueue em) \<noteq> 0 \<and> mNumEvents (mLowPriorityQueue em) \<noteq> 0 \<and>
            high_handled em = 0) \<and>
    (high_handled em \<noteq> 0 \<longrightarrow>
       events_consumed kHighPriority em (snd (snd (EventManager_processEvent locals em))) = 1 \<and>
       events_consumed kLowPriority em (snd (snd (EventManager_processEvent locals em))) = 0)"
proof -
  from assms have wfh: "EventQueue_wf (mHighPriorityQueue em)"
    and wfl: "EventQueue_wf (mLowPriorityQueue em)"
    by (simp_all add: EventManager_wf_def)
  note nh = events_Nil_iff [OF wfh] and nl = events_Nil_iff [OF wfl]
  show ?thesis
  proof (cases "EventQueue_events (mHighPriorityQueue em) = []")
    case hempty: True
    show ?thesis
    proof (cases "EventQueue_events (mLowPriorityQueue em) = []")
      case True
      with hempty processEvent_both_empty [OF assms hempty True, of locals] nh nl show ?thesis
        by (simp add: high_handled_Nil events_consumed_def)
    next
      case False
      with hempty processEvent_low_only [OF assms hempty False, of locals] nh nl
        popEvent_Cons(3) [OF wfl False, of locals]
      show ?thesis
        by (simp add: high_handled_Nil events_consumed_def)
    qed
  next
    case hne: False
    note hh = high_handled_Cons [OF hne]
    note cnt = popEvent_Cons(3) [OF wfh hne, of locals]
    show ?thesis
    proof (cases "high_handled em = 0")
      case handled: False
      with hh processEvent_high_handled [OF assms hne, of locals] cnt show ?thesis
        by (simp add: events_consumed_def)
    next
      case unhandled: True
      show ?thesis
      proof (cases "EventQueue_events (mLowPriorityQueue em) = []")
        case True
        with unhandled hh hne cnt nh nl
          processEvent_high_unhandled_low_empty [OF assms hne _ True, of locals]
        show ?thesis by (simp add: events_consumed_def)
      next
        case False
        with unhandled hh hne cnt nh nl
          processEvent_high_unhandled_low [OF assms hne _ False, of locals]
          popEvent_Cons(3) [OF wfl False, of "hd (EventQueue_events (mHighPriorityQueue em))"]
        show ?thesis by (simp add: events_consumed_def)
      qed
    qed
  qed
qed

text \<open>C1 as stated fails: with one event in each queue and no listener, one call pops
  the high-priority event, finds nobody to handle it, and pops the low-priority event
  as well: two events in one call.\<close>

theorem processEvent_consumes_counterexample:
  "EventManager_wf example_manager \<and>
   ListenerList_sendEvent 7 0 (mListenerList example_manager) = (0, []) \<and>
   EventManager_processEvent (0, 0) example_manager =
     (0, [Pop kHighPriority (Some (7, 0)), Pop kLowPriority (Some (8, 0))],
      snd (snd (EventManager_processEvent (0, 0) example_manager))) \<and>
   events_consumed kHighPriority example_manager
     (snd (snd (EventManager_processEvent (0, 0) example_manager))) +
   events_consumed kLowPriority example_manager
     (snd (snd (EventManager_processEvent (0, 0) example_manager))) = 2"
  by code_simp


theorem processEvent_consumes_witness:
  "EventManager_wf example_manager \<and>
   mNumEvents (mHighPriorityQueue example_manager) \<noteq> 0 \<and>
   mNumEvents (mLowPriorityQueue example_manager) \<noteq> 0 \<and>
   high_handled example_manager = 0 \<and>
   events_consumed kHighPriority example_manager
     (snd (snd (EventManager_processEvent (0, 0) example_manager))) = 1 \<and>
   events_consumed kLowPriority example_manager
     (snd (snd (EventManager_processEvent (0, 0) example_manager))) = 1 \<and>
   EventManager_wf example_manager_listening \<and>
   high_handled example_manager_listening \<noteq> 0 \<and>
   events_consumed kHighPriority example_manager_listening
     (snd (snd (EventManager_processEvent (0, 0) example_manager_listening))) = 1 \<and>
   events_consumed kLowPriority example_manager_listening
     (snd (snd (EventManager_processEvent (0, 0) example_manager_listening))) = 0"
proof -
  have wf: "EventManager_wf example_manager" by code_simp
  have ne: "mNumEvents (mHighPriorityQueue example_manager) \<noteq> 0"
    "mNumEvents (mLowPriorityQueue example_manager) \<noteq> 0" by code_simp+
  have hh: "high_handled example_manager = 0" by code_simp
  have wf': "EventManager_wf example_manager_listening" by code_simp
  have hh': "high_handled example_manager_listening \<noteq> 0" by code_simp
  from processEvent_consumes [OF wf, of "(0, 0)"] processEvent_consumes [OF wf', of "(0, 0)"]
    wf ne hh wf' hh'
  show ?thesis by blast
qed

subsection \<open>processAllEvents\<close>

lemma processAllEvents_loop_drain:
  assumes "EventQueue_wf q"
  shows "\<exists>locals' q'. processAllEvents_loop pri ll locals handledCount log q =
      Some (locals', handledCount + sum_list (map (handled_by ll) (EventQueue_events q)),
            log @ concat (map (effects_of pri ll) (EventQueue_events q)) @ [Pop pri None], q') \<and>
      EventQueue_wf q' \<and> mNumEvents q' = 0"
  using assms
proof (induction "EventQueue_events q" arbitrary: q locals handledCount log)
  case Nil
  then have ev: "EventQueue_events q = []" by simp
  from popEvent_Nil [OF Nil.prems ev, of locals] ev Nil.prems events_Nil_iff [OF Nil.prems]
  show ?case
    by (subst processAllEvents_loop.simps) simp
next
  case (Cons e es)
  then have ev: "EventQueue_events q = e # es" by simp
  then have ne: "EventQueue_events q \<noteq> []" by simp
  let ?q' = "snd (snd (EventQueue_popEvent locals q))"
  from popEvent_Cons [OF Cons.prems ne, of locals] ev
  have pop: "EventQueue_popEvent locals q = (True, e, ?q')"
    and ev': "es = EventQueue_events ?q'" by simp_all
  from popEvent_wf [OF Cons.prems] have wf': "EventQueue_wf ?q'" .
  from Cons.hyps(1) [OF ev' wf', of e "handledCount + handled_by ll e"
      "log @ [Pop pri (Some e)] @ snd (ListenerList_sendEvent (fst e) (snd e) ll)"]
  obtain locals' q' where
    rec: "processAllEvents_loop pri ll e (handledCount + handled_by ll e)
            (log @ [Pop pri (Some e)] @ snd (ListenerList_sendEvent (fst e) (snd e) ll)) ?q' =
          Some (locals',
                handledCount + handled_by ll e + sum_list (map (handled_by ll) (EventQueue_events ?q')),
                (log @ [Pop pri (Some e)] @ snd (ListenerList_sendEvent (fst e) (snd e) ll)) @
                  concat (map (effects_of pri ll) (EventQueue_events ?q')) @ [Pop pri None], q')"
    and fin: "EventQueue_wf q'" "mNumEvents q' = 0"
    by blast
  have "processAllEvents_loop pri ll locals handledCount log q =
        processAllEvents_loop pri ll e (handledCount + handled_by ll e)
            (log @ [Pop pri (Some e)] @ snd (ListenerList_sendEvent (fst e) (snd e) ll)) ?q'"
    by (subst processAllEvents_loop.simps, subst pop)
       (simp add: case_prod_beta handled_by_def)
  with rec fin ev ev' show ?case
    by (simp add: effects_of_def)
qed

text \<open>C6. In a well-formed manager (and with listeners that do not call back into the
  manager, as everywhere in this model) \<^verbatim>\<open>processAllEvents\<close> returns. It pops and sends
  to the listeners every event of the high-priority queue, oldest first, and then every
  event of the low-priority queue; its result is the sum of the handled counts of all
  these events; both queues are empty afterwards and the listener table is as before.\<close>

theorem processAllEvents_drains:
  assumes "EventManager_wf em"
  shows "\<exists>em'. EventManager_processAllEvents locals em =
      Some (sum_list (map (handled_by (mListenerList em))
                       (EventQueue_events (mHighPriorityQueue em) @
                        EventQueue_events (mLowPriorityQueue em))),
            concat (map (effects_of kHighPriority (mListenerList em))
                      (EventQueue_events (mHighPriorityQueue em)))
              @ [Pop kHighPriority None]
              @ concat (map (effects_of kLowPriority (mListenerList em))
                          (EventQueue_events (mLowPriorityQueue em)))
              @ [Pop kLowPriority None],
            em') \<and>
      EventQueue_isEmpty (mHighPriorityQueue em') \<and>
      EventQueue_isEmpty (mLowPriorityQueue em') \<and>
      mListenerList em' = mListenerList em \<and>
      EventManager_wf em'"
proof -
  from assms have wfh: "EventQueue_wf (mHighPriorityQueue em)"
    and wfl: "EventQueue_wf (mLowPriorityQueue em)"
    and inv: "ListenerList_inv (mListenerList em)"
    by (simp_all add: EventManager_wf_def)
  from processAllEvents_loop_drain [OF wfh, of kHighPriority "mListenerList em" locals 0 "[]"]
  obtain localsH hq where
    h: "processAllEvents_loop kHighPriority (mListenerList em) locals 0 [] (mHighPriorityQueue em) =
          Some (localsH,
                0 + sum_list (map (handled_by (mListenerList em)) (EventQueue_events (mHighPriorityQueue em))),
                [] @ concat (map (effects_of kHighPriority (mListenerList em))
                         (EventQueue_events (mHighPriorityQueue em))) @ [Pop kHighPriority None], hq)"
    and hfin: "EventQueue_wf hq" "mNumEvents hq = 0"
    by blast
  from processAllEvents_loop_drain [OF wfl, of kLowPriority "mListenerList em" localsH
      "0 + sum_list (map (handled_by (mListenerList em)) (EventQueue_events (mHighPriorityQueue em)))"
      "[] @ concat (map (effects_of kHighPriority (mListenerList em))
                         (EventQueue_events (mHighPriorityQueue em))) @ [Pop kHighPriority None]"]
  obtain localsL lq where
    l: "processAllEvents_loop kLowPriority (mListenerList em) localsH
          (0 + sum_list (map (handled_by (mListenerList em)) (EventQueue_events (mHighPriorityQueue em))))
          ([] @ concat (map (effects_of kHighPriority (mListenerList em))
                         (EventQueue_events (mHighPriorityQueue em))) @ [Pop kHighPriority None])
          (mLowPriorityQueue em) =
          Some (localsL,
                0 + sum_list (map (handled_by (mListenerList em)) (EventQueue_events (mHighPriorityQueue em)))
                  + sum_list (map (handled_by (mListenerList em)) (EventQueue_events (mLowPriorityQueue em))),
                ([] @ concat (map (effects_of kHighPriority (mListenerList em))
                         (EventQueue_events (mHighPriorityQueue em))) @ [Pop kHighPriority None])
                  @ concat (map (effects_of kLowPriority (mListenerList em))
                         (EventQueue_events (mLowPriorityQueue em))) @ [Pop kLowPriority None], lq)"
    and lfin: "EventQueue_wf lq" "mNumEvents lq = 0"
    by blast
  have "EventManager_processAllEvents locals em =
      Some (sum_list (map (handled_by (mListenerList em))
                       (EventQueue_events (mHighPriorityQueue em) @
                        EventQueue_events (mLowPriorityQueue em))),
            concat (map (effects_of kHighPriority (mListenerList em))
                      (EventQueue_events (mHighPriorityQueue em)))
              @ [Pop kHighPriority None]
              @ concat (map (effects_of kLowPriority (mListenerList em))
                          (EventQueue_events (mLowPriorityQueue em)))
              @ [Pop kLowPriority None],
            em \<lparr> mHighPriorityQueue := hq, mLowPriorityQueue := lq \<rparr>)"
    unfolding EventManager_processAllEvents_def h option.case prod.case l by simp
  moreover have "EventManager_wf (em \<lparr> mHighPriorityQueue := hq, mLowPriorityQueue := lq \<rparr>)"
    using hfin lfin inv by (simp add: EventManager_wf_def)
  ultimately show ?thesis
    using hfin lfin by (intro exI [of _ "em \<lparr> mHighPriorityQueue := hq, mLowPriorityQueue := lq \<rparr>"])
      (simp add: EventQueue_isEmpty_def)
qed

theorem processAllEvents_drains_witness:
  "EventManager_wf example_manager_five \<and>
   EventQueue_events (mHighPriorityQueue example_manager_five) = [(100, 4), (101, 5)] \<and>
   EventQueue_events (mLowPriorityQueue example_manager_five) = [(100, 1), (101, 2), (102, 3)] \<and>
   (\<exists>em'. EventManager_processAllEvents (0, 0) example_manager_five =
      Some (6,
            [Pop kHighPriority (Some (100, 4)), Call 1 100 4, Call 2 100 4,
             Pop kHighPriority (Some (101, 5)), Call 3 101 5,
             Pop kHighPriority None,
             Pop kLowPriority (Some (100, 1)), Call 1 100 1, Call 2 100 1,
             Pop kLowPriority (Some (101, 2)), Call 3 101 2,
             Pop kLowPriority (Some (102, 3)),
             Pop kLowPriority None],
            em') \<and>
      EventQueue_isEmpty (mHighPriorityQueue em') \<and>
      EventQueue_isEmpty (mLowPriorityQueue em'))"
proof -
  have wf: "EventManager_wf example_manager_five" by code_simp
  have evh: "EventQueue_events (mHighPriorityQueue example_manager_five) = [(100, 4), (101, 5)]"
    by code_simp
  have evl: "EventQueue_events (mLowPriorityQueue example_manager_five) = [(100, 1), (101, 2), (102, 3)]"
    by code_simp
  have total: "sum_list (map (handled_by (mListenerList example_manager_five))
                       (EventQueue_events (mHighPriorityQueue example_manager_five) @
                        EventQueue_events (mLowPriorityQueue example_manager_five))) = 6"
    by code_simp
  have log: "concat (map (effects_of kHighPriority (mListenerList example_manager_five))
                      (EventQueue_events (mHighPriorityQueue example_manager_five)))
              @ [Pop kHighPriority None]
              @ concat (map (effects_of kLowPriority (mListenerList example_manager_five))
                          (EventQueue_events (mLowPriorityQueue example_manager_five)))
              @ [Pop kLowPriority None] =
            [Pop kHighPriority (Some (100, 4)), Call 1 100 4, Call 2 100 4,
             Pop kHighPriority (Some (101, 5)), Call 3 101 5,
             Pop kHighPriority None,
             Pop kLowPriority (Some (100, 1)), Call 1 100 1, Call 2 100 1,
             Pop kLowPriority (Some (101, 2)), Call 3 101 2,
             Pop kLowPriority (Some (102, 3)),
             Pop kLowPriority None]"
    by code_simp
  from processAllEvents_drains [OF wf, of "(0, 0)"] wf evh evl
  show ?thesis unfolding total log by blast
qed

subsection \<open>The listener table under its operations\<close>

lemma remove_first_take_drop:
  "k < length xs \<Longrightarrow> P (xs ! k) \<Longrightarrow> (\<forall>j<k. \<not> P (xs ! j)) \<Longrightarrow>
   remove_first P xs = take k xs @ drop (Suc k) xs"
proof (induction xs arbitrary: k)
  case Nil
  then show ?case by simp
next
  case (Cons x xs)
  show ?case
  proof (cases k)
    case 0
    with Cons.prems show ?thesis by simp
  next
    case (Suc k')
    with Cons.prems have "\<not> P x" by auto
    moreover from Suc Cons.prems have "remove_first P xs = take k' xs @ drop (Suc k') xs"
      by (intro Cons.IH) auto
    ultimately show ?thesis using Suc by simp
  qed
qed

lemma remove_first_none: "(\<forall>x\<in>set xs. \<not> P x) \<Longrightarrow> remove_first P xs = xs"
  by (induction xs) auto

lemma searchListeners_loop_found:
  assumes "0 \<le> i" "0 \<le> searchListeners_loop ec listener ll i"
  shows "i \<le> searchListeners_loop ec listener ll i \<and>
         searchListeners_loop ec listener ll i < mNumListeners ll \<and>
         is_pair ec listener (mListeners ll ! nat (searchListeners_loop ec listener ll i)) \<and>
         (\<forall>j. i \<le> j \<and> j < searchListeners_loop ec listener ll i \<longrightarrow>
              \<not> is_pair ec listener (mListeners ll ! nat j))"
  using assms
proof (induction ec listener ll i rule: searchListeners_loop.induct)
  case (1 ec listener ll i)
  show ?case
  proof (cases "i < mNumListeners ll")
    case False
    with "1.prems" show ?thesis
      by (simp add: searchListeners_loop.simps [of ec listener ll i])
  next
    case True
    show ?thesis
    proof (cases "eventCode (mListeners ll ! nat i) = ec \<and> callback (mListeners ll ! nat i) = listener")
      case match: True
      with True show ?thesis
        by (simp add: searchListeners_loop.simps [of ec listener ll i] is_pair_def)
    next
      case nomatch: False
      with True have eq: "searchListeners_loop ec listener ll i = searchListeners_loop ec listener ll (i + 1)"
        by (auto simp: searchListeners_loop.simps [of ec listener ll i])
      from "1.prems" have "0 \<le> i + 1" by simp
      from "1.IH" [OF True nomatch this] "1.prems"(2) eq
      have IH: "i + 1 \<le> searchListeners_loop ec listener ll i \<and>
         searchListeners_loop ec listener ll i < mNumListeners ll \<and>
         is_pair ec listener (mListeners ll ! nat (searchListeners_loop ec listener ll i)) \<and>
         (\<forall>j. i + 1 \<le> j \<and> j < searchListeners_loop ec listener ll i \<longrightarrow>
              \<not> is_pair ec listener (mListeners ll ! nat j))"
        by simp
      have "\<not> is_pair ec listener (mListeners ll ! nat j)"
        if "i \<le> j" "j < searchListeners_loop ec listener ll i" for j
      proof (cases "j = i")
        case True
        with nomatch show ?thesis by (simp add: is_pair_def)
      next
        case False
        with that IH show ?thesis by simp
      qed
      with IH show ?thesis by simp
    qed
  qed
qed

lemma searchListeners_loop_notfound:
  assumes "searchListeners_loop ec listener ll i < 0" "0 \<le> i"
  shows "\<forall>j. i \<le> j \<and> j < mNumListeners ll \<longrightarrow> \<not> is_pair ec listener (mListeners ll ! nat j)"
  using assms
proof (induction ec listener ll i rule: searchListeners_loop.induct)
  case (1 ec listener ll i)
  show ?case
  proof (cases "i < mNumListeners ll")
    case False
    then show ?thesis by (intro allI impI) linarith
  next
    case True
    show ?thesis
    proof (cases "eventCode (mListeners ll ! nat i) = ec \<and> callback (mListeners ll ! nat i) = listener")
      case match: True
      with True "1.prems" show ?thesis
        by (simp add: searchListeners_loop.simps [of ec listener ll i])
    next
      case nomatch: False
      with True have eq: "searchListeners_loop ec listener ll i = searchListeners_loop ec listener ll (i + 1)"
        by (auto simp: searchListeners_loop.simps [of ec listener ll i])
      from "1.prems" have "0 \<le> i + 1" by simp
      from "1.IH" [OF True nomatch _ this] "1.prems"(1) eq
      have IH: "\<forall>j. i + 1 \<le> j \<and> j < mNumListeners ll \<longrightarrow>
          \<not> is_pair ec listener (mListeners ll ! nat j)"
        by simp
      have "\<not> is_pair ec listener (mListeners ll ! nat j)" if "i \<le> j" "j < mNumListeners ll" for j
      proof (cases "j = i")
        case True
        with nomatch show ?thesis by (simp add: is_pair_def)
      next
        case False
        with that IH show ?thesis by simp
      qed
      then show ?thesis by simp
    qed
  qed
qed

lemma removeListener_shift_fields [simp]:
  "kMaxListeners (removeListener_shift i ll) = kMaxListeners ll"
  "mDefaultCallback (removeListener_shift i ll) = mDefaultCallback ll"
  "mDefaultCallbackEnabled (removeListener_shift i ll) = mDefaultCallbackEnabled ll"
  "length (mListeners (removeListener_shift i ll)) = length (mListeners ll)"
proof (induction i ll rule: removeListener_shift.induct)
  case (1 i ll)
  {
    case 1
    show ?case
    proof (cases "i < mNumListeners ll - 1")
      case True
      with "1.IH"(1) show ?thesis by (simp add: removeListener_shift.simps [of i ll])
    next
      case False
      then show ?thesis by (simp add: removeListener_shift.simps [of i ll])
    qed
  next
    case 2
    show ?case
    proof (cases "i < mNumListeners ll - 1")
      case True
      with "1.IH"(2) show ?thesis by (simp add: removeListener_shift.simps [of i ll])
    next
      case False
      then show ?thesis by (simp add: removeListener_shift.simps [of i ll])
    qed
  next
    case 3
    show ?case
    proof (cases "i < mNumListeners ll - 1")
      case True
      with "1.IH"(3) show ?thesis by (simp add: removeListener_shift.simps [of i ll])
    next
      case False
      then show ?thesis by (simp add: removeListener_shift.simps [of i ll])
    qed
  next
    case 4
    show ?case
    proof (cases "i < mNumListeners ll - 1")
      case True
      with "1.IH"(4) show ?thesis by (simp add: removeListener_shift.simps [of i ll])
    next
      case False
      then show ?thesis by (simp add: removeListener_shift.simps [of i ll])
    qed
  }
qed

lemma removeListener_shift_nth:
  assumes "0 \<le> i" "mNumListeners ll \<le> int (length (mListeners ll))" "j < length (mListeners ll)"
  shows "mListeners (removeListener_shift i ll) ! j =
           (if nat i \<le> j \<and> int j < mNumListeners ll - 1
            then mListeners ll ! Suc j else mListeners ll ! j)"
  using assms
proof (induction i ll rule: removeListener_shift.induct)
  case (1 i ll)
  show ?case
  proof (cases "i < mNumListeners ll - 1")
    case False
    then show ?thesis
      using "1.prems" by (auto simp: removeListener_shift.simps [of i ll])
  next
    case True
    let ?ll' = "ll \<lparr> mListeners := (mListeners ll)[nat i := mListeners ll ! nat (i + 1)] \<rparr>"
    have step: "removeListener_shift i ll = removeListener_shift (i + 1) ?ll'"
      using True by (simp add: removeListener_shift.simps [of i ll])
    from "1.prems" have succ: "nat (i + 1) = Suc (nat i)" by simp
    have "mListeners (removeListener_shift (i + 1) ?ll') ! j =
           (if nat (i + 1) \<le> j \<and> int j < mNumListeners ?ll' - 1
            then mListeners ?ll' ! Suc j else mListeners ?ll' ! j)"
      using "1.IH" [OF True] "1.prems" by simp
    then show ?thesis
      unfolding step using "1.prems" True succ
      by (auto simp: nth_list_update)
  qed
qed


lemma ListenerItem_update_all [simp]:
  "(x :: ListenerItem) \<lparr> callback := l, eventCode := c, enabled := b \<rparr> =
     \<lparr> callback = l, eventCode = c, enabled = b \<rparr>"
  by (cases x) simp

lemma entries_length:
  "ListenerList_bounds ll \<Longrightarrow> length (ListenerList_entries ll) = nat (mNumListeners ll)"
  by (auto simp: ListenerList_entries_def ListenerList_bounds_def)

lemma entries_nth:
  "j < nat (mNumListeners ll) \<Longrightarrow> ListenerList_entries ll ! j = mListeners ll ! j"
  by (simp add: ListenerList_entries_def)

lemma shift_entries:
  assumes b: "ListenerList_bounds ll" and k: "0 \<le> k" "k < mNumListeners ll"
  shows "ListenerList_entries
           ((removeListener_shift k ll) \<lparr> mNumListeners := mNumListeners (removeListener_shift k ll) - 1 \<rparr>)
         = take (nat k) (ListenerList_entries ll) @ drop (Suc (nat k)) (ListenerList_entries ll)"
proof (rule nth_equalityI)
  from b k show len: "length (ListenerList_entries
           ((removeListener_shift k ll) \<lparr> mNumListeners := mNumListeners (removeListener_shift k ll) - 1 \<rparr>))
       = length (take (nat k) (ListenerList_entries ll) @ drop (Suc (nat k)) (ListenerList_entries ll))"
    by (simp add: ListenerList_entries_def ListenerList_bounds_def) linarith
  fix j
  assume "j < length (ListenerList_entries
           ((removeListener_shift k ll) \<lparr> mNumListeners := mNumListeners (removeListener_shift k ll) - 1 \<rparr>))"
  with b k have j: "int j < mNumListeners ll - 1"
    by (simp add: ListenerList_entries_def ListenerList_bounds_def)
  with b have jl: "j < length (mListeners ll)" "Suc j < nat (mNumListeners ll)"
    by (simp_all add: ListenerList_bounds_def) linarith+
  from b have le: "mNumListeners ll \<le> int (length (mListeners ll))"
    by (simp add: ListenerList_bounds_def)
  have lhs: "ListenerList_entries
           ((removeListener_shift k ll) \<lparr> mNumListeners := mNumListeners (removeListener_shift k ll) - 1 \<rparr>) ! j
        = (if nat k \<le> j then mListeners ll ! Suc j else mListeners ll ! j)"
    using j jl removeListener_shift_nth [OF k(1) le jl(1)]
    by (simp add: ListenerList_entries_def)
  have lenE: "length (ListenerList_entries ll) = nat (mNumListeners ll)"
    by (rule entries_length [OF b])
  have rhs: "(take (nat k) (ListenerList_entries ll) @ drop (Suc (nat k)) (ListenerList_entries ll)) ! j
        = (if nat k \<le> j then mListeners ll ! Suc j else mListeners ll ! j)"
  proof (cases "nat k \<le> j")
    case True
    with k jl lenE have "(take (nat k) (ListenerList_entries ll) @ drop (Suc (nat k)) (ListenerList_entries ll)) ! j
        = ListenerList_entries ll ! (Suc (nat k) + (j - nat k))"
      by (simp add: nth_append min_def)
    also from True have "Suc (nat k) + (j - nat k) = Suc j" by simp
    finally show ?thesis using True jl by (simp add: entries_nth)
  next
    case False
    with k jl lenE show ?thesis
      by (simp add: nth_append entries_nth)
  qed
  from lhs rhs show "ListenerList_entries
           ((removeListener_shift k ll) \<lparr> mNumListeners := mNumListeners (removeListener_shift k ll) - 1 \<rparr>) ! j
       = (take (nat k) (ListenerList_entries ll) @ drop (Suc (nat k)) (ListenerList_entries ll)) ! j"
    by simp
qed

lemma shift_bounds:
  assumes "ListenerList_bounds ll" "0 < mNumListeners ll"
  shows "ListenerList_bounds
           ((removeListener_shift k ll) \<lparr> mNumListeners := mNumListeners (removeListener_shift k ll) - 1 \<rparr>)"
  using assms by (simp add: ListenerList_bounds_def)

lemma set_take_drop_subset: "set (take k xs @ drop (Suc k) xs) \<subseteq> set xs"
  by (auto dest: in_set_takeD in_set_dropD)

lemma shift_inv:
  assumes inv: "ListenerList_inv ll" and k: "0 \<le> k" "k < mNumListeners ll"
  shows "ListenerList_inv
           ((removeListener_shift k ll) \<lparr> mNumListeners := mNumListeners (removeListener_shift k ll) - 1 \<rparr>)"
proof -
  from inv have b: "ListenerList_bounds ll"
    and nn: "\<forall>e\<in>set (ListenerList_entries ll). callback e \<noteq> 0"
    by (simp_all add: ListenerList_inv_def list_all_iff)
  from k have pos: "0 < mNumListeners ll" by simp
  from nn set_take_drop_subset [of "nat k" "ListenerList_entries ll"]
  have "\<forall>e\<in>set (take (nat k) (ListenerList_entries ll) @ drop (Suc (nat k)) (ListenerList_entries ll)).
          callback e \<noteq> 0"
    by blast
  with shift_bounds [OF b pos, of k] shift_entries [OF b k] show ?thesis
    by (simp add: ListenerList_inv_def list_all_iff)
qed

lemma search_found_entries:
  assumes b: "ListenerList_bounds ll" and f: "0 \<le> ListenerList_searchListeners ec listener ll"
  shows "ListenerList_searchListeners ec listener ll < mNumListeners ll"
    and "is_pair ec listener
           (ListenerList_entries ll ! nat (ListenerList_searchListeners ec listener ll))"
    and "\<forall>j < nat (ListenerList_searchListeners ec listener ll).
           \<not> is_pair ec listener (ListenerList_entries ll ! j)"
proof -
  let ?k = "ListenerList_searchListeners ec listener ll"
  from f have f': "0 \<le> searchListeners_loop ec listener ll 0"
    by (simp add: ListenerList_searchListeners_def)
  note found = searchListeners_loop_found [OF order_refl f', folded ListenerList_searchListeners_def]
  from found show lt: "?k < mNumListeners ll" by simp
  from found lt f show "is_pair ec listener (ListenerList_entries ll ! nat ?k)"
    by (simp add: entries_nth)
  show "\<forall>j < nat ?k. \<not> is_pair ec listener (ListenerList_entries ll ! j)"
  proof (intro allI impI)
    fix j assume j: "j < nat ?k"
    with lt have "j < nat (mNumListeners ll)" by simp
    moreover from j found have "\<not> is_pair ec listener (mListeners ll ! nat (int j))"
      by (metis nat_int of_nat_0_le_iff zless_nat_conj zless_nat_eq_int_zless)
    ultimately show "\<not> is_pair ec listener (ListenerList_entries ll ! j)"
      by (simp add: entries_nth)
  qed
qed

lemma search_notfound_entries:
  assumes b: "ListenerList_bounds ll" and nf: "ListenerList_searchListeners ec listener ll < 0"
  shows "\<forall>e\<in>set (ListenerList_entries ll). \<not> is_pair ec listener e"
proof
  fix e assume "e \<in> set (ListenerList_entries ll)"
  then obtain j where j: "j < length (ListenerList_entries ll)" "ListenerList_entries ll ! j = e"
    by (auto simp: in_set_conv_nth)
  with b have jn: "j < nat (mNumListeners ll)" by (simp add: entries_length)
  from nf have "searchListeners_loop ec listener ll 0 < 0"
    by (simp add: ListenerList_searchListeners_def)
  from searchListeners_loop_notfound [OF this order_refl] jn
  have "\<not> is_pair ec listener (mListeners ll ! nat (int j))"
    by (metis of_nat_0_le_iff zless_nat_eq_int_zless nat_int)
  with j jn show "\<not> is_pair ec listener e" by (simp add: entries_nth)
qed


lemma removeListener_found:
  assumes b: "ListenerList_bounds ll"
    and ex: "\<exists>e\<in>set (ListenerList_entries ll). is_pair ec listener e"
  shows "fst (ListenerList_removeListener ec listener ll)"
    and "ListenerList_entries (snd (ListenerList_removeListener ec listener ll)) =
           remove_first (is_pair ec listener) (ListenerList_entries ll)"
    and "mNumListeners (snd (ListenerList_removeListener ec listener ll)) = mNumListeners ll - 1"
    and "ListenerList_bounds (snd (ListenerList_removeListener ec listener ll))"
    and "kMaxListeners (snd (ListenerList_removeListener ec listener ll)) = kMaxListeners ll \<and>
         mDefaultCallback (snd (ListenerList_removeListener ec listener ll)) = mDefaultCallback ll \<and>
         mDefaultCallbackEnabled (snd (ListenerList_removeListener ec listener ll)) =
           mDefaultCallbackEnabled ll"
proof -
  let ?k = "ListenerList_searchListeners ec listener ll"
  from ex have "ListenerList_entries ll \<noteq> []" by auto
  with b have n0: "mNumListeners ll \<noteq> 0"
    by (auto simp: ListenerList_entries_def)
  from ex search_notfound_entries [OF b, of ec listener] have k0: "0 \<le> ?k"
    by (cases "?k < 0") auto
  note f = search_found_entries [OF b k0]
  from n0 k0 have run: "ListenerList_removeListener ec listener ll =
      (True, (removeListener_shift ?k ll)
               \<lparr> mNumListeners := mNumListeners (removeListener_shift ?k ll) - 1 \<rparr>)"
    by (simp add: ListenerList_removeListener_def Let_def)
  from run show "fst (ListenerList_removeListener ec listener ll)" by simp
  from b f(1) k0 have klen: "nat ?k < length (ListenerList_entries ll)"
    by (simp add: entries_length)
  from run shift_entries [OF b k0 f(1)] remove_first_take_drop [OF klen f(2) f(3)]
  show "ListenerList_entries (snd (ListenerList_removeListener ec listener ll)) =
           remove_first (is_pair ec listener) (ListenerList_entries ll)"
    by simp
  from run show "mNumListeners (snd (ListenerList_removeListener ec listener ll)) = mNumListeners ll - 1"
    by simp
  from k0 f(1) have pos: "0 < mNumListeners ll" by simp
  from run shift_bounds [OF b pos, of ?k]
  show "ListenerList_bounds (snd (ListenerList_removeListener ec listener ll))" by simp
  from run show "kMaxListeners (snd (ListenerList_removeListener ec listener ll)) = kMaxListeners ll \<and>
         mDefaultCallback (snd (ListenerList_removeListener ec listener ll)) = mDefaultCallback ll \<and>
         mDefaultCallbackEnabled (snd (ListenerList_removeListener ec listener ll)) =
           mDefaultCallbackEnabled ll"
    by simp
qed

lemma removeListener_notfound:
  assumes b: "ListenerList_bounds ll"
    and nex: "\<not> (\<exists>e\<in>set (ListenerList_entries ll). is_pair ec listener e)"
  shows "ListenerList_removeListener ec listener ll = (False, ll)"
proof (cases "mNumListeners ll = 0")
  case True
  then show ?thesis by (simp add: ListenerList_removeListener_def)
next
  case False
  have "ListenerList_searchListeners ec listener ll < 0"
  proof (rule ccontr)
    assume "\<not> ListenerList_searchListeners ec listener ll < 0"
    then have k0: "0 \<le> ListenerList_searchListeners ec listener ll" by simp
    note f = search_found_entries [OF b k0]
    from b f(1) k0 have "nat (ListenerList_searchListeners ec listener ll) < length (ListenerList_entries ll)"
      by (simp add: entries_length)
    with f(2) nex show False by (metis nth_mem)
  qed
  then show ?thesis by (simp add: ListenerList_removeListener_def Let_def)
qed

lemma removeListener_inv:
  assumes "ListenerList_inv ll"
  shows "ListenerList_inv (snd (ListenerList_removeListener ec listener ll))"
proof (cases "mNumListeners ll \<noteq> 0 \<and> 0 \<le> ListenerList_searchListeners ec listener ll")
  case True
  from assms have b: "ListenerList_bounds ll" by (simp add: ListenerList_inv_def)
  from True search_found_entries(1) [OF b] have k: "0 \<le> ListenerList_searchListeners ec listener ll"
    "ListenerList_searchListeners ec listener ll < mNumListeners ll" by simp_all
  from True shift_inv [OF assms k] show ?thesis
    by (simp add: ListenerList_removeListener_def Let_def)
next
  case False
  with assms show ?thesis
    by (auto simp: ListenerList_removeListener_def Let_def)
qed

lemma addListener_added:
  assumes b: "ListenerList_bounds ll" and l: "listener \<noteq> 0"
    and room: "mNumListeners ll \<noteq> kMaxListeners ll"
  shows "fst (ListenerList_addListener ec listener ll)"
    and "ListenerList_entries (snd (ListenerList_addListener ec listener ll)) =
           ListenerList_entries ll @ [\<lparr> callback = listener, eventCode = ec, enabled = True \<rparr>]"
    and "mNumListeners (snd (ListenerList_addListener ec listener ll)) = mNumListeners ll + 1"
    and "ListenerList_bounds (snd (ListenerList_addListener ec listener ll))"
    and "kMaxListeners (snd (ListenerList_addListener ec listener ll)) = kMaxListeners ll"
proof -
  from l room have run: "ListenerList_addListener ec listener ll =
      (True, ll \<lparr> mListeners := (mListeners ll)[nat (mNumListeners ll) :=
                     \<lparr> callback = listener, eventCode = ec, enabled = True \<rparr>],
                  mNumListeners := mNumListeners ll + 1 \<rparr>)"
    by (simp add: ListenerList_addListener_def ListenerList_isFull_def)
  from run show "fst (ListenerList_addListener ec listener ll)" by simp
  from b room have lt: "nat (mNumListeners ll) < length (mListeners ll)"
    by (simp add: ListenerList_bounds_def)
  from b have "0 \<le> mNumListeners ll"
    by (simp add: ListenerList_bounds_def)
  then have "nat (mNumListeners ll + 1) = Suc (nat (mNumListeners ll))"
    by simp
  with run lt show "ListenerList_entries (snd (ListenerList_addListener ec listener ll)) =
           ListenerList_entries ll @ [\<lparr> callback = listener, eventCode = ec, enabled = True \<rparr>]"
    by (simp add: ListenerList_entries_def take_Suc_conv_app_nth)
  from run show "mNumListeners (snd (ListenerList_addListener ec listener ll)) = mNumListeners ll + 1"
    by simp
  from run b room show "ListenerList_bounds (snd (ListenerList_addListener ec listener ll))"
    by (simp add: ListenerList_bounds_def)
  from run show "kMaxListeners (snd (ListenerList_addListener ec listener ll)) = kMaxListeners ll"
    by simp
qed

lemma addListener_inv:
  assumes "ListenerList_inv ll"
  shows "ListenerList_inv (snd (ListenerList_addListener ec listener ll))"
proof (cases "listener \<noteq> 0 \<and> mNumListeners ll \<noteq> kMaxListeners ll")
  case True
  from assms have b: "ListenerList_bounds ll" by (simp add: ListenerList_inv_def)
  from True addListener_added(2,4) [OF b, of listener ec] assms show ?thesis
    by (simp add: ListenerList_inv_def)
next
  case False
  with assms show ?thesis
    by (auto simp: ListenerList_addListener_def ListenerList_isFull_def)
qed

lemma enableListener_inv:
  assumes "ListenerList_inv ll"
  shows "ListenerList_inv (snd (ListenerList_enableListener ec listener enable ll))"
proof (cases "mNumListeners ll \<noteq> 0 \<and> 0 \<le> ListenerList_searchListeners ec listener ll")
  case True
  let ?k = "nat (ListenerList_searchListeners ec listener ll)"
  from assms have b: "ListenerList_bounds ll"
    and nn: "\<forall>e\<in>set (ListenerList_entries ll). callback e \<noteq> 0"
    by (simp_all add: ListenerList_inv_def list_all_iff)
  from True have run: "snd (ListenerList_enableListener ec listener enable ll) =
      ll \<lparr> mListeners := (mListeners ll)[?k := (mListeners ll ! ?k) \<lparr> enabled := enable \<rparr>] \<rparr>"
    by (simp add: ListenerList_enableListener_def Let_def)
  have ent: "ListenerList_entries (ll \<lparr> mListeners := (mListeners ll)[?k := (mListeners ll ! ?k) \<lparr> enabled := enable \<rparr>] \<rparr>)
      = (ListenerList_entries ll)[?k := (mListeners ll ! ?k) \<lparr> enabled := enable \<rparr>]"
    by (simp add: ListenerList_entries_def take_update_swap)
  from True have k0: "0 \<le> ListenerList_searchListeners ec listener ll" by simp
  from k0 search_found_entries(1) [OF b k0] b have klt: "?k < length (ListenerList_entries ll)"
    by (simp add: entries_length)
  then have "mListeners ll ! ?k = ListenerList_entries ll ! ?k"
    by (simp add: ListenerList_entries_def)
  with klt nn have "callback (mListeners ll ! ?k) \<noteq> 0" by (metis nth_mem)
  with nn have "\<forall>e\<in>set ((ListenerList_entries ll)[?k := (mListeners ll ! ?k) \<lparr> enabled := enable \<rparr>]).
      callback e \<noteq> 0"
    by (auto dest!: set_update_subset_insert [THEN subsetD])
  with b show ?thesis unfolding run
    by (simp add: ListenerList_inv_def ent list_all_iff) (simp add: ListenerList_bounds_def)
next
  case False
  with assms show ?thesis
    by (auto simp: ListenerList_enableListener_def Let_def)
qed

lemma removeListener_cb_loop_inv:
  "ListenerList_inv ll \<Longrightarrow> ListenerList_inv (snd (removeListener_cb_loop listener ll removed))"
proof (induction listener ll removed rule: removeListener_cb_loop.induct)
  case (1 listener ll removed)
  let ?k = "ListenerList_searchListeners_cb listener ll"
  show ?case
  proof (cases "0 \<le> ?k")
    case False
    with "1.prems" show ?thesis
      by (simp add: removeListener_cb_loop.simps [of listener ll removed] Let_def)
  next
    case True
    then have "0 \<le> searchListeners_cb_loop listener ll 0"
      by (simp add: ListenerList_searchListeners_cb_def)
    from searchListeners_cb_loop_range [OF this] have lt: "?k < mNumListeners ll"
      by (simp add: ListenerList_searchListeners_cb_def)
    from shift_inv [OF "1.prems" True lt]
    have "ListenerList_inv ((removeListener_shift ?k ll)
            \<lparr> mNumListeners := mNumListeners (removeListener_shift ?k ll) - 1 \<rparr>)" .
    from "1.IH" [OF refl True this] True show ?thesis
      by (simp add: removeListener_cb_loop.simps [of listener ll removed] Let_def)
  qed
qed

lemma removeListener_cb_inv:
  "ListenerList_inv ll \<Longrightarrow> ListenerList_inv (snd (ListenerList_removeListener_cb listener ll))"
  by (simp add: ListenerList_removeListener_cb_def removeListener_cb_loop_inv)

lemma default_listener_inv:
  assumes "ListenerList_inv ll"
  shows "ListenerList_inv (snd (ListenerList_setDefaultListener listener ll))"
    and "ListenerList_inv (ListenerList_removeDefaultListener ll)"
    and "ListenerList_inv (ListenerList_enableDefaultListener enable ll)"
  using assms
  by (simp_all add: ListenerList_inv_def ListenerList_bounds_def ListenerList_entries_def
      ListenerList_setDefaultListener_def ListenerList_removeDefaultListener_def
      ListenerList_enableDefaultListener_def)

lemma ListenerList_ctor_inv:
  "0 \<le> L \<Longrightarrow> length slots0 = nat L \<Longrightarrow> ListenerList_inv (ListenerList_ctor L slots0 flag0)"
  by (simp add: ListenerList_inv_def ListenerList_bounds_def ListenerList_entries_def
      ListenerList_ctor_def)


lemma remove_first_append:
  "(\<forall>x\<in>set xs. \<not> P x) \<Longrightarrow> remove_first P (xs @ ys) = xs @ remove_first P ys"
  by (induction xs) auto

text \<open>C8. On a table within its bounds, \<^verbatim>\<open>removeListener(eventCode, listener)\<close> with a
  matching entry returns true; the entries in use afterwards are the former ones without
  the first that matches both fields, every later entry one position to the left, and
  the count is one less. Without a matching entry it returns false and the table is
  unchanged. So after two successful registrations of the same pair on a table that had
  no such entry, two removals return true, no entry for the pair is left, and a third
  removal returns false and changes nothing.\<close>

theorem removeListener_first_match:
  assumes "ListenerList_bounds ll"
  shows
    "((\<exists>e\<in>set (ListenerList_entries ll). is_pair ec listener e) \<longrightarrow>
        fst (ListenerList_removeListener ec listener ll) \<and>
        ListenerList_entries (snd (ListenerList_removeListener ec listener ll)) =
          remove_first (is_pair ec listener) (ListenerList_entries ll) \<and>
        mNumListeners (snd (ListenerList_removeListener ec listener ll)) = mNumListeners ll - 1 \<and>
        ListenerList_bounds (snd (ListenerList_removeListener ec listener ll))) \<and>
     (\<not> (\<exists>e\<in>set (ListenerList_entries ll). is_pair ec listener e) \<longrightarrow>
        ListenerList_removeListener ec listener ll = (False, ll)) \<and>
     (listener \<noteq> 0 \<and> mNumListeners ll + 2 \<le> kMaxListeners ll \<and>
      \<not> (\<exists>e\<in>set (ListenerList_entries ll). is_pair ec listener e) \<longrightarrow>
        (let twice = snd (ListenerList_addListener ec listener
                       (snd (ListenerList_addListener ec listener ll)));
             r1 = ListenerList_removeListener ec listener twice;
             r2 = ListenerList_removeListener ec listener (snd r1);
             r3 = ListenerList_removeListener ec listener (snd r2)
         in fst r1 \<and> fst r2 \<and>
            \<not> (\<exists>e\<in>set (ListenerList_entries (snd r2)). is_pair ec listener e) \<and>
            \<not> fst r3 \<and> snd r3 = snd r2))"
proof (intro conjI impI)
  assume ex: "\<exists>e\<in>set (ListenerList_entries ll). is_pair ec listener e"
  note f = removeListener_found [OF assms ex]
  from f(1) show "fst (ListenerList_removeListener ec listener ll)" .
  from f(2) show "ListenerList_entries (snd (ListenerList_removeListener ec listener ll)) =
          remove_first (is_pair ec listener) (ListenerList_entries ll)" .
  from f(3) show "mNumListeners (snd (ListenerList_removeListener ec listener ll)) = mNumListeners ll - 1" .
  from f(4) show "ListenerList_bounds (snd (ListenerList_removeListener ec listener ll))" .
next
  assume "\<not> (\<exists>e\<in>set (ListenerList_entries ll). is_pair ec listener e)"
  from removeListener_notfound [OF assms this]
  show "ListenerList_removeListener ec listener ll = (False, ll)" .
next
  assume a: "listener \<noteq> 0 \<and> mNumListeners ll + 2 \<le> kMaxListeners ll \<and>
      \<not> (\<exists>e\<in>set (ListenerList_entries ll). is_pair ec listener e)"
  let ?a = "\<lparr> callback = listener, eventCode = ec, enabled = True \<rparr>"
  let ?E = "ListenerList_entries ll"
  let ?ll1 = "snd (ListenerList_addListener ec listener ll)"
  let ?ll2 = "snd (ListenerList_addListener ec listener ?ll1)"
  let ?r1 = "ListenerList_removeListener ec listener ?ll2"
  let ?r2 = "ListenerList_removeListener ec listener (snd ?r1)"
  let ?r3 = "ListenerList_removeListener ec listener (snd ?r2)"
  from a have l: "listener \<noteq> 0" and none: "\<forall>x\<in>set ?E. \<not> is_pair ec listener x"
    and room1: "mNumListeners ll \<noteq> kMaxListeners ll" by auto
  have pa: "is_pair ec listener ?a" by (simp add: is_pair_def)
  note a1 = addListener_added [OF assms l room1, of ec]
  from a a1(3,5) have room2: "mNumListeners ?ll1 \<noteq> kMaxListeners ?ll1" by simp
  note a2 = addListener_added [OF a1(4) l room2, of ec]
  from a1(2) a2(2) have e2: "ListenerList_entries ?ll2 = ?E @ [?a, ?a]" by simp
  with pa have ex2: "\<exists>e\<in>set (ListenerList_entries ?ll2). is_pair ec listener e" by auto
  note f1 = removeListener_found [OF a2(4) ex2]
  from f1(2) e2 none pa have e3: "ListenerList_entries (snd ?r1) = ?E @ [?a]"
    by (simp add: remove_first_append)
  with pa have ex3: "\<exists>e\<in>set (ListenerList_entries (snd ?r1)). is_pair ec listener e" by auto
  note f2 = removeListener_found [OF f1(4) ex3]
  from f2(2) e3 none pa have e4: "ListenerList_entries (snd ?r2) = ?E"
    by (simp add: remove_first_append)
  with none have nex: "\<not> (\<exists>e\<in>set (ListenerList_entries (snd ?r2)). is_pair ec listener e)"
    by simp
  from removeListener_notfound [OF f2(4) nex] have "?r3 = (False, snd ?r2)" .
  with f1(1) f2(1) nex
  show "let twice = snd (ListenerList_addListener ec listener
                       (snd (ListenerList_addListener ec listener ll)));
             r1 = ListenerList_removeListener ec listener twice;
             r2 = ListenerList_removeListener ec listener (snd r1);
             r3 = ListenerList_removeListener ec listener (snd r2)
         in fst r1 \<and> fst r2 \<and>
            \<not> (\<exists>e\<in>set (ListenerList_entries (snd r2)). is_pair ec listener e) \<and>
            \<not> fst r3 \<and> snd r3 = snd r2"
    by (simp add: Let_def)
qed

theorem removeListener_first_match_witness:
  "ListenerList_bounds example_registry \<and>
   (\<exists>e\<in>set (ListenerList_entries example_registry). is_pair 42 2 e) \<and>
   fst (ListenerList_removeListener 42 2 example_registry) \<and>
   ListenerList_entries (snd (ListenerList_removeListener 42 2 example_registry)) =
     [\<lparr> callback = 1, eventCode = 7, enabled = True \<rparr>,
      \<lparr> callback = 3, eventCode = 42, enabled = False \<rparr>] \<and>
   \<not> (\<exists>e\<in>set (ListenerList_entries example_registry). is_pair 42 9 e) \<and>
   ListenerList_removeListener 42 9 example_registry = (False, example_registry) \<and>
   ListenerList_bounds example_registry_empty \<and>
   (6 :: nat) \<noteq> 0 \<and> mNumListeners example_registry_empty + 2 \<le> kMaxListeners example_registry_empty \<and>
   \<not> (\<exists>e\<in>set (ListenerList_entries example_registry_empty). is_pair 5 6 e) \<and>
   (let twice = snd (ListenerList_addListener 5 6
                       (snd (ListenerList_addListener 5 6 example_registry_empty)));
        r1 = ListenerList_removeListener 5 6 twice;
        r2 = ListenerList_removeListener 5 6 (snd r1);
        r3 = ListenerList_removeListener 5 6 (snd r2)
    in fst r1 \<and> fst r2 \<and>
       \<not> (\<exists>e\<in>set (ListenerList_entries (snd r2)). is_pair 5 6 e) \<and>
       \<not> fst r3 \<and> snd r3 = snd r2)"
proof -
  have b: "ListenerList_bounds example_registry" by code_simp
  have ex: "\<exists>e\<in>set (ListenerList_entries example_registry). is_pair 42 2 e" by code_simp
  have rf: "remove_first (is_pair 42 2) (ListenerList_entries example_registry) =
     [\<lparr> callback = 1, eventCode = 7, enabled = True \<rparr>,
      \<lparr> callback = 3, eventCode = 42, enabled = False \<rparr>]" by code_simp
  have nex: "\<not> (\<exists>e\<in>set (ListenerList_entries example_registry). is_pair 42 9 e)" by code_simp
  have b0: "ListenerList_bounds example_registry_empty" by code_simp
  have h0: "(6 :: nat) \<noteq> 0 \<and> mNumListeners example_registry_empty + 2 \<le> kMaxListeners example_registry_empty \<and>
   \<not> (\<exists>e\<in>set (ListenerList_entries example_registry_empty). is_pair 5 6 e)" by code_simp
  from removeListener_first_match [OF b, of 42 2] removeListener_first_match [OF b, of 42 9]
    removeListener_first_match [OF b0, of 5 6] b ex nex b0 h0
  show ?thesis unfolding rf by blast
qed

subsection \<open>Dispatch with listeners that change the table\<close>

lemma example_registry_pair_reached:
  "example_registry_pair =
     snd (ListenerList_addListener 5 2 (snd (ListenerList_addListener 5 1
       (ListenerList_ctor 2 (replicate 2 \<lparr> callback = 0, eventCode = 0, enabled = False \<rparr>) False))))"
  by code_simp

lemma sendEvent_scan_still:
  assumes "\<forall>j. i \<le> j \<and> j < mNumListeners ll \<and>
             callback (mListeners ll ! nat j) \<noteq> 0 \<and>
             eventCode (mListeners ll ! nat j) = ec \<and>
             enabled (mListeners ll ! nat j) \<longrightarrow>
             act (callback (mListeners ll ! nat j)) ec p ll = ll"
  shows "sendEvent_scan act ec p i handlerCount calls ll =
           Some (fst (sendEvent_loop ec p ll i handlerCount calls),
                 snd (sendEvent_loop ec p ll i handlerCount calls), ll)"
  using assms
proof (induction ec p ll i handlerCount calls rule: sendEvent_loop.induct)
  case (1 ec p ll i handlerCount calls)
  show ?case
  proof (cases "i < mNumListeners ll")
    case False
    then show ?thesis
      by (subst sendEvent_scan.simps) (simp add: sendEvent_loop.simps [of ec p ll i])
  next
    case True
    from "1.prems" have later: "\<forall>j. i + 1 \<le> j \<and> j < mNumListeners ll \<and>
             callback (mListeners ll ! nat j) \<noteq> 0 \<and>
             eventCode (mListeners ll ! nat j) = ec \<and>
             enabled (mListeners ll ! nat j) \<longrightarrow>
             act (callback (mListeners ll ! nat j)) ec p ll = ll"
      by simp
    show ?thesis
    proof (cases "callback (mListeners ll ! nat i) \<noteq> 0
               \<and> eventCode (mListeners ll ! nat i) = ec
               \<and> enabled (mListeners ll ! nat i)")
      case match: True
      with True "1.prems" have same: "act (callback (mListeners ll ! nat i)) ec p ll = ll"
        by simp
      have "sendEvent_scan act ec p i handlerCount calls ll =
            sendEvent_scan act ec p (i + 1) (handlerCount + 1)
              (calls @ [Call (callback (mListeners ll ! nat i)) ec p]) ll"
        using True match same by (subst sendEvent_scan.simps) simp
      with "1.IH"(1) [OF True match later] True match show ?thesis
        by (simp add: sendEvent_loop.simps [of ec p ll i])
    next
      case nomatch: False
      have "sendEvent_scan act ec p i handlerCount calls ll =
            sendEvent_scan act ec p (i + 1) handlerCount calls ll"
        using True nomatch by (subst sendEvent_scan.simps) auto
      with "1.IH"(2) [OF True nomatch later] True nomatch show ?thesis
        by (auto simp: sendEvent_loop.simps [of ec p ll i])
    qed
  qed
qed

lemma sendEvent_acting_still:
  assumes b: "ListenerList_bounds ll"
    and still: "\<forall>e\<in>set (ListenerList_entries ll).
                  callback e \<noteq> 0 \<and> eventCode e = ec \<and> enabled e \<longrightarrow> act (callback e) ec p ll = ll"
  shows "ListenerList_sendEvent_acting act ec p ll =
           Some (fst (ListenerList_sendEvent ec p ll), snd (ListenerList_sendEvent ec p ll),
                 if fst (sendEvent_loop ec p ll 0 0 []) = 0 \<and>
                    mDefaultCallback ll \<noteq> 0 \<and> mDefaultCallbackEnabled ll
                 then act (mDefaultCallback ll) ec p ll else ll)"
proof -
  have idx: "\<forall>j. 0 \<le> j \<and> j < mNumListeners ll \<and>
             callback (mListeners ll ! nat j) \<noteq> 0 \<and>
             eventCode (mListeners ll ! nat j) = ec \<and>
             enabled (mListeners ll ! nat j) \<longrightarrow>
             act (callback (mListeners ll ! nat j)) ec p ll = ll"
  proof (intro allI impI)
    fix j
    assume a: "0 \<le> j \<and> j < mNumListeners ll \<and>
             callback (mListeners ll ! nat j) \<noteq> 0 \<and>
             eventCode (mListeners ll ! nat j) = ec \<and>
             enabled (mListeners ll ! nat j)"
    then have lt: "nat j < nat (mNumListeners ll)" by simp
    with b have "nat j < length (ListenerList_entries ll)" by (simp add: entries_length)
    then have "ListenerList_entries ll ! nat j \<in> set (ListenerList_entries ll)" by (rule nth_mem)
    with lt have "mListeners ll ! nat j \<in> set (ListenerList_entries ll)" by (simp add: entries_nth)
    with still a show "act (callback (mListeners ll ! nat j)) ec p ll = ll" by blast
  qed
  show ?thesis
    by (simp add: ListenerList_sendEvent_acting_def ListenerList_sendEvent_def
        sendEvent_scan_still [where act = act and ec = ec and p = p and ll = ll and i = 0, OF idx] case_prod_beta)
qed

text \<open>C5, as amended. Let the table satisfy its structural invariant, and let every
  listener of an enabled entry for \<open>code\<close> leave the table as it is when it is called
  with \<open>(code, param)\<close>. Then \<^verbatim>\<open>sendEvent(code, param)\<close> returns, and it calls, oldest
  entry first, exactly the entries in use whose event code is \<open>code\<close> and whose enabled
  flag is set, each with \<open>(code, param)\<close>. If there is none and a default listener is
  installed and enabled, it calls the default listener once with \<open>(code, param)\<close>. The
  result is the number of calls made.\<close>

theorem sendEvent_dispatch:
  assumes "ListenerList_inv ll"
    and "\<forall>e\<in>set (ListenerList_entries ll).
           eventCode e = ec \<and> enabled e \<longrightarrow> act (callback e) ec p ll = ll"
  shows "ListenerList_sendEvent_acting act ec p ll =
     Some (if filter (\<lambda>e. eventCode e = ec \<and> enabled e) (ListenerList_entries ll) = []
              \<and> mDefaultCallback ll \<noteq> 0 \<and> mDefaultCallbackEnabled ll
           then (1, [Call (mDefaultCallback ll) ec p], act (mDefaultCallback ll) ec p ll)
           else (int (length (filter (\<lambda>e. eventCode e = ec \<and> enabled e) (ListenerList_entries ll))),
                 map (\<lambda>e. Call (callback e) ec p)
                   (filter (\<lambda>e. eventCode e = ec \<and> enabled e) (ListenerList_entries ll)),
                 ll)) \<and>
     (\<exists>calls ll'. ListenerList_sendEvent_acting act ec p ll = Some (int (length calls), calls, ll'))"
proof -
  from assms(1) have b: "ListenerList_bounds ll"
    and nn: "list_all (\<lambda>e. callback e \<noteq> 0) (ListenerList_entries ll)"
    by (simp_all add: ListenerList_inv_def)
  from assms(2) have still: "\<forall>e\<in>set (ListenerList_entries ll).
      callback e \<noteq> 0 \<and> eventCode e = ec \<and> enabled e \<longrightarrow> act (callback e) ec p ll = ll"
    by blast
  from b have le: "mNumListeners ll \<le> int (length (mListeners ll))"
    by (simp add: ListenerList_bounds_def)
  note F = filter_nonnull [OF nn, of ec]
  have lp: "fst (sendEvent_loop ec p ll 0 0 []) =
      int (length (filter (\<lambda>e. eventCode e = ec \<and> enabled e) (ListenerList_entries ll)))"
    using sendEvent_loop_eq [OF order_refl le, of ec p 0 "[]"] F by simp
  have se: "ListenerList_sendEvent ec p ll =
     (if filter (\<lambda>e. eventCode e = ec \<and> enabled e) (ListenerList_entries ll) = []
         \<and> mDefaultCallback ll \<noteq> 0 \<and> mDefaultCallbackEnabled ll
      then (1, [Call (mDefaultCallback ll) ec p])
      else (int (length (filter (\<lambda>e. eventCode e = ec \<and> enabled e) (ListenerList_entries ll))),
            map (\<lambda>e. Call (callback e) ec p)
              (filter (\<lambda>e. eventCode e = ec \<and> enabled e) (ListenerList_entries ll))))"
    using sendEvent_eq [OF b, of ec p] F by simp
  have eq: "ListenerList_sendEvent_acting act ec p ll =
     Some (if filter (\<lambda>e. eventCode e = ec \<and> enabled e) (ListenerList_entries ll) = []
              \<and> mDefaultCallback ll \<noteq> 0 \<and> mDefaultCallbackEnabled ll
           then (1, [Call (mDefaultCallback ll) ec p], act (mDefaultCallback ll) ec p ll)
           else (int (length (filter (\<lambda>e. eventCode e = ec \<and> enabled e) (ListenerList_entries ll))),
                 map (\<lambda>e. Call (callback e) ec p)
                   (filter (\<lambda>e. eventCode e = ec \<and> enabled e) (ListenerList_entries ll)),
                 ll))"
    unfolding sendEvent_acting_still [where act = act and ec = ec and p = p, OF b still] lp se
    by simp
  show ?thesis
  proof (intro conjI)
    show "\<exists>calls ll'. ListenerList_sendEvent_acting act ec p ll = Some (int (length calls), calls, ll')"
      unfolding eq by (auto split: if_splits)
  qed (rule eq)
qed

text \<open>C5 as stated fails when a listener changes the table: with two enabled entries
  for code 5, the first of which removes itself when called, the removal moves the
  second entry into slot 0 and lowers the count to 1, the scan ends at index 1, and the
  second listener is never called: one call, result 1.\<close>

theorem sendEvent_dispatch_counterexample:
  "ListenerList_inv example_registry_pair \<and>
   ListenerList_entries example_registry_pair =
     [\<lparr> callback = 1, eventCode = 5, enabled = True \<rparr>,
      \<lparr> callback = 2, eventCode = 5, enabled = True \<rparr>] \<and>
   ListenerList_sendEvent_acting example_self_removing 5 1 example_registry_pair =
     Some (1, [Call 1 5 1], snd (ListenerList_removeListener 5 1 example_registry_pair))"
  by code_simp

theorem sendEvent_dispatch_witness:
  "ListenerList_inv example_registry \<and>
   filter (\<lambda>e. eventCode e = 42 \<and> enabled e) (ListenerList_entries example_registry) =
     [\<lparr> callback = 2, eventCode = 42, enabled = True \<rparr>] \<and>
   example_self_removing 2 42 5 example_registry = example_registry \<and>
   ListenerList_sendEvent_acting example_self_removing 42 5 example_registry =
     Some (1, [Call 2 42 5], example_registry)"
proof -
  have m: "filter (\<lambda>e. eventCode e = 42 \<and> enabled e) (ListenerList_entries example_registry) =
     [\<lparr> callback = 2, eventCode = 42, enabled = True \<rparr>]" by code_simp
  have s2: "example_self_removing 2 42 5 example_registry = example_registry" by code_simp
  have inv: "ListenerList_inv example_registry" by code_simp
  have still: "\<forall>e\<in>set (ListenerList_entries example_registry).
      eventCode e = 42 \<and> enabled e \<longrightarrow> example_self_removing (callback e) 42 5 example_registry = example_registry"
    by code_simp
  have r: "(if filter (\<lambda>e. eventCode e = 42 \<and> enabled e) (ListenerList_entries example_registry) = []
              \<and> mDefaultCallback example_registry \<noteq> 0 \<and> mDefaultCallbackEnabled example_registry
           then (1, [Call (mDefaultCallback example_registry) 42 5],
                 example_self_removing (mDefaultCallback example_registry) 42 5 example_registry)
           else (int (length (filter (\<lambda>e. eventCode e = 42 \<and> enabled e) (ListenerList_entries example_registry))),
                 map (\<lambda>e. Call (callback e) 42 5)
                   (filter (\<lambda>e. eventCode e = 42 \<and> enabled e) (ListenerList_entries example_registry)),
                 example_registry)) = (1, [Call 2 42 5], example_registry)"
    by code_simp
  from sendEvent_dispatch [where act = example_self_removing and ec = 42 and p = 5, OF inv still]
    inv m s2
  show ?thesis unfolding r by blast
qed

subsection \<open>The structural invariants\<close>

lemma processAllEvents_loop_inv:
  assumes "EventQueue_inv q"
  shows "\<exists>r. processAllEvents_loop pri ll locals handledCount log q = Some r \<and>
             EventQueue_inv (snd (snd (snd r)))"
  using assms
proof (induction "nat (mNumEvents q)" arbitrary: q locals handledCount log)
  case 0
  then have "mNumEvents q = 0" by (simp add: EventQueue_inv_def)
  then have "EventQueue_popEvent locals q = (False, locals, q)"
    by (simp add: EventQueue_popEvent_def EventQueue_isEmpty_def)
  with "0.prems" show ?case
    by (subst processAllEvents_loop.simps) simp
next
  case (Suc n)
  let ?r = "EventQueue_popEvent locals q"
  from Suc.hyps(2) have ne: "mNumEvents q \<noteq> 0" by auto
  then have ok: "fst ?r" and cnt: "mNumEvents (snd (snd ?r)) = mNumEvents q - 1"
    by (simp_all add: EventQueue_popEvent_def EventQueue_isEmpty_def)
  from cnt Suc.hyps(2) have n: "n = nat (mNumEvents (snd (snd ?r)))" by simp
  from popEvent_inv [OF Suc.prems] have inv': "EventQueue_inv (snd (snd ?r))" .
  have "processAllEvents_loop pri ll locals handledCount log q =
        processAllEvents_loop pri ll (fst (snd ?r))
          (handledCount + fst (ListenerList_sendEvent (fst (fst (snd ?r))) (snd (fst (snd ?r))) ll))
          (log @ [Pop pri (Some (fst (snd ?r)))] @
             snd (ListenerList_sendEvent (fst (fst (snd ?r))) (snd (fst (snd ?r))) ll))
          (snd (snd ?r))"
    using ok by (subst processAllEvents_loop.simps) (simp add: case_prod_beta)
  with Suc.hyps(1) [OF n inv'] show ?case by simp
qed

lemma EventManager_queueEvent_inv:
  "EventManager_inv em \<Longrightarrow> EventManager_inv (snd (EventManager_queueEvent ec ep pri em))"
  by (simp add: EventManager_inv_def EventManager_queueEvent_def case_prod_beta queueEvent_inv)

lemma EventManager_listener_ops_inv:
  assumes "EventManager_inv em"
  shows "EventManager_inv (snd (EventManager_addListener ec listener em))"
    and "EventManager_inv (snd (EventManager_removeListener ec listener em))"
    and "EventManager_inv (snd (EventManager_removeListener_cb listener em))"
    and "EventManager_inv (snd (EventManager_enableListener ec listener enable em))"
    and "EventManager_inv (snd (EventManager_setDefaultListener listener em))"
    and "EventManager_inv (EventManager_removeDefaultListener em)"
    and "EventManager_inv (EventManager_enableDefaultListener enable em)"
  using assms
  by (simp_all add: EventManager_inv_def case_prod_beta
      EventManager_addListener_def EventManager_removeListener_def
      EventManager_removeListener_cb_def EventManager_enableListener_def
      EventManager_setDefaultListener_def EventManager_removeDefaultListener_def
      EventManager_enableDefaultListener_def
      addListener_inv removeListener_inv removeListener_cb_inv enableListener_inv
      default_listener_inv)

lemma EventManager_processEvent_inv:
  assumes "EventManager_inv em"
  shows "EventManager_inv (snd (snd (EventManager_processEvent locals em)))"
  using assms
  by (simp add: EventManager_inv_def EventManager_processEvent_def case_prod_beta popEvent_inv)

lemma EventManager_processAllEvents_inv:
  assumes "EventManager_inv em"
  shows "\<exists>r. EventManager_processAllEvents locals em = Some r \<and> EventManager_inv (snd (snd r))"
proof -
  from assms have h: "EventQueue_inv (mHighPriorityQueue em)"
    and l: "EventQueue_inv (mLowPriorityQueue em)"
    and ll: "ListenerList_inv (mListenerList em)"
    by (simp_all add: EventManager_inv_def)
  from processAllEvents_loop_inv [OF h, of kHighPriority "mListenerList em" locals 0 "[]"]
  obtain localsH handledH logH hq where
    rh: "processAllEvents_loop kHighPriority (mListenerList em) locals 0 [] (mHighPriorityQueue em) =
           Some (localsH, handledH, logH, hq)" and hq: "EventQueue_inv hq"
    by (metis prod.collapse)
  from processAllEvents_loop_inv [OF l, of kLowPriority "mListenerList em" localsH handledH logH]
  obtain localsL handledL logL lq where
    rl: "processAllEvents_loop kLowPriority (mListenerList em) localsH handledH logH (mLowPriorityQueue em) =
           Some (localsL, handledL, logL, lq)" and lq: "EventQueue_inv lq"
    by (metis prod.collapse)
  from rh rl hq lq ll show ?thesis
    by (simp add: EventManager_processAllEvents_def EventManager_inv_def)
qed

lemma EventManager_ctor_inv:
  "0 < K \<Longrightarrow> 0 \<le> L \<Longrightarrow> length slots0 = nat L \<Longrightarrow>
   EventManager_inv (EventManager_ctor K L safety slots0 flag0)"
  by (simp add: EventManager_inv_def EventManager_ctor_def EventQueue_ctor_inv ListenerList_ctor_inv)

lemma queue_advance:
  assumes "EventQueue_inv q"
  shows "mNumEvents q \<noteq> kEventQueueSize q \<longrightarrow>
           mEventQueueTail (snd (EventQueue_queueEvent ec ep q)) =
             (mEventQueueTail q + 1) mod kEventQueueSize q \<and>
           mEventQueueHead (snd (EventQueue_queueEvent ec ep q)) = mEventQueueHead q"
    and "mNumEvents q \<noteq> 0 \<longrightarrow>
           mEventQueueHead (snd (snd (EventQueue_popEvent out q))) =
             (mEventQueueHead q + 1) mod kEventQueueSize q \<and>
           mEventQueueTail (snd (snd (EventQueue_popEvent out q))) = mEventQueueTail q"
  using assms
  by (simp_all add: EventQueue_inv_def EventQueue_queueEvent_def EventQueue_popEvent_def
      EventQueue_isFull_def EventQueue_isEmpty_def smod_nonneg_eq_mod)

text \<open>C9. Every public operation keeps the structural invariants. From a manager
  whose two queues have a count between 0 and the capacity and head and tail inside the
  array, and whose listener table has a count between 0 and its capacity and a
  registration in every slot below the count, each of \<^verbatim>\<open>queueEvent\<close>, \<^verbatim>\<open>addListener\<close>,
  the two \<^verbatim>\<open>removeListener\<close>, \<^verbatim>\<open>enableListener\<close>, \<^verbatim>\<open>setDefaultListener\<close>,
  \<^verbatim>\<open>removeDefaultListener\<close>, \<^verbatim>\<open>enableDefaultListener\<close>, \<^verbatim>\<open>processEvent\<close> and
  \<^verbatim>\<open>processAllEvents\<close> (which returns) leads to such a manager again. So do
  \<^verbatim>\<open>queueEvent\<close> and \<^verbatim>\<open>popEvent\<close> on a single queue, where a successful call moves tail,
  respectively head, to the next index modulo the capacity and leaves the other index
  alone. The constructor makes such a manager.\<close>

theorem invariants_preserved:
  "(EventManager_inv em \<longrightarrow>
      EventManager_inv (snd (EventManager_queueEvent ec ep pri em)) \<and>
      EventManager_inv (snd (EventManager_addListener ec listener em)) \<and>
      EventManager_inv (snd (EventManager_removeListener ec listener em)) \<and>
      EventManager_inv (snd (EventManager_removeListener_cb listener em)) \<and>
      EventManager_inv (snd (EventManager_enableListener ec listener enable em)) \<and>
      EventManager_inv (snd (EventManager_setDefaultListener listener em)) \<and>
      EventManager_inv (EventManager_removeDefaultListener em) \<and>
      EventManager_inv (EventManager_enableDefaultListener enable em) \<and>
      EventManager_inv (snd (snd (EventManager_processEvent locals em))) \<and>
      (\<exists>r. EventManager_processAllEvents locals em = Some r \<and> EventManager_inv (snd (snd r)))) \<and>
   (EventQueue_inv q \<longrightarrow>
      EventQueue_inv (snd (EventQueue_queueEvent ec ep q)) \<and>
      EventQueue_inv (snd (snd (EventQueue_popEvent out q))) \<and>
      (mNumEvents q \<noteq> kEventQueueSize q \<longrightarrow>
         mEventQueueTail (snd (EventQueue_queueEvent ec ep q)) =
           (mEventQueueTail q + 1) mod kEventQueueSize q \<and>
         mEventQueueHead (snd (EventQueue_queueEvent ec ep q)) = mEventQueueHead q) \<and>
      (mNumEvents q \<noteq> 0 \<longrightarrow>
         mEventQueueHead (snd (snd (EventQueue_popEvent out q))) =
           (mEventQueueHead q + 1) mod kEventQueueSize q \<and>
         mEventQueueTail (snd (snd (EventQueue_popEvent out q))) = mEventQueueTail q)) \<and>
   (0 < K \<and> 0 \<le> L \<and> length slots0 = nat L \<longrightarrow>
      EventManager_inv (EventManager_ctor K L safety slots0 flag0))"
proof (intro conjI impI)
  assume inv: "EventManager_inv em"
  from EventManager_queueEvent_inv [OF inv]
  show "EventManager_inv (snd (EventManager_queueEvent ec ep pri em))" .
  from EventManager_listener_ops_inv [OF inv]
  show "EventManager_inv (snd (EventManager_addListener ec listener em))"
    and "EventManager_inv (snd (EventManager_removeListener ec listener em))"
    and "EventManager_inv (snd (EventManager_removeListener_cb listener em))"
    and "EventManager_inv (snd (EventManager_enableListener ec listener enable em))"
    and "EventManager_inv (snd (EventManager_setDefaultListener listener em))"
    and "EventManager_inv (EventManager_removeDefaultListener em)"
    and "EventManager_inv (EventManager_enableDefaultListener enable em)" .
  from EventManager_processEvent_inv [OF inv]
  show "EventManager_inv (snd (snd (EventManager_processEvent locals em)))" .
  from EventManager_processAllEvents_inv [OF inv]
  show "\<exists>r. EventManager_processAllEvents locals em = Some r \<and> EventManager_inv (snd (snd r))" .
next
  assume inv: "EventQueue_inv q"
  from queueEvent_inv [OF inv] show "EventQueue_inv (snd (EventQueue_queueEvent ec ep q))" .
  from popEvent_inv [OF inv] show "EventQueue_inv (snd (snd (EventQueue_popEvent out q)))" .
  {
    assume "mNumEvents q \<noteq> kEventQueueSize q"
    with queue_advance(1) [OF inv, of ec ep]
    show "mEventQueueTail (snd (EventQueue_queueEvent ec ep q)) =
           (mEventQueueTail q + 1) mod kEventQueueSize q"
      and "mEventQueueHead (snd (EventQueue_queueEvent ec ep q)) = mEventQueueHead q"
      by simp_all
  }
  {
    assume "mNumEvents q \<noteq> 0"
    with queue_advance(2) [OF inv, of out]
    show "mEventQueueHead (snd (snd (EventQueue_popEvent out q))) =
           (mEventQueueHead q + 1) mod kEventQueueSize q"
      and "mEventQueueTail (snd (snd (EventQueue_popEvent out q))) = mEventQueueTail q"
      by simp_all
  }
next
  assume "0 < K \<and> 0 \<le> L \<and> length slots0 = nat L"
  then show "EventManager_inv (EventManager_ctor K L safety slots0 flag0)"
    by (simp add: EventManager_ctor_inv)
qed

theorem invariants_preserved_witness:
  "EventManager_inv example_manager_five \<and>
   EventManager_inv (snd (EventManager_queueEvent 100 9 kHighPriority example_manager_five)) \<and>
   EventManager_inv (snd (EventManager_addListener 100 2 example_manager_five)) \<and>
   EventManager_inv (snd (EventManager_removeListener 100 2 example_manager_five)) \<and>
   EventManager_inv (snd (EventManager_removeListener_cb 2 example_manager_five)) \<and>
   EventManager_inv (snd (EventManager_enableListener 100 2 False example_manager_five)) \<and>
   EventManager_inv (snd (EventManager_setDefaultListener 2 example_manager_five)) \<and>
   EventManager_inv (EventManager_removeDefaultListener example_manager_five) \<and>
   EventManager_inv (EventManager_enableDefaultListener False example_manager_five) \<and>
   EventManager_inv (snd (snd (EventManager_processEvent (0, 0) example_manager_five))) \<and>
   (\<exists>r. EventManager_processAllEvents (0, 0) example_manager_five = Some r \<and>
        EventManager_inv (snd (snd r))) \<and>
   EventQueue_inv example_queue_one \<and>
   mNumEvents example_queue_one \<noteq> kEventQueueSize example_queue_one \<and>
   mNumEvents example_queue_one \<noteq> 0 \<and>
   EventQueue_inv (snd (EventQueue_queueEvent 100 9 example_queue_one)) \<and>
   EventQueue_inv (snd (snd (EventQueue_popEvent (0, 0) example_queue_one))) \<and>
   mEventQueueTail (snd (EventQueue_queueEvent 100 9 example_queue_one)) =
     (mEventQueueTail example_queue_one + 1) mod kEventQueueSize example_queue_one \<and>
   mEventQueueHead (snd (snd (EventQueue_popEvent (0, 0) example_queue_one))) =
     (mEventQueueHead example_queue_one + 1) mod kEventQueueSize example_queue_one \<and>
   (0 :: int) < 4 \<and> (0 :: int) \<le> 4 \<and>
   length (replicate 4 \<lparr> callback = 0, eventCode = 0, enabled = False \<rparr>) = nat 4 \<and>
   EventManager_inv (EventManager_ctor 4 4 kInterruptSafe
      (replicate 4 \<lparr> callback = 0, eventCode = 0, enabled = False \<rparr>) False)"
proof -
  have inv: "EventManager_inv example_manager_five" by code_simp
  have qinv: "EventQueue_inv example_queue_one"
    "mNumEvents example_queue_one \<noteq> kEventQueueSize example_queue_one"
    "mNumEvents example_queue_one \<noteq> 0" by code_simp+
  have c: "(0 :: int) < 4 \<and> (0 :: int) \<le> 4 \<and>
   length (replicate 4 \<lparr> callback = 0, eventCode = 0, enabled = False \<rparr>) = nat 4" by simp
  from invariants_preserved [where em = example_manager_five and ec = 100 and ep = 9
      and pri = kHighPriority and listener = 2 and enable = False and locals = "(0, 0)"
      and q = example_queue_one and out = "(0, 0)" and K = 4 and L = 4
      and ?slots0.0 = "replicate 4 \<lparr> callback = 0, eventCode = 0, enabled = False \<rparr>"
      and safety = kInterruptSafe and ?flag0.0 = False] inv qinv c
  show ?thesis by blast
qed

subsection \<open>Reachable managers are well formed\<close>

lemma EventManager_wf_inv: "EventManager_wf em \<Longrightarrow> EventManager_inv em"
  by (simp add: EventManager_wf_def EventManager_inv_def EventQueue_wf_def)

lemma EventManager_reachable_wf:
  "EventManager_reachable em \<Longrightarrow> EventManager_wf em"
proof (induction rule: EventManager_reachable.induct)
  case (ctor K L slots0 safety flag0)
  then show ?case
    by (simp add: EventManager_wf_def EventManager_ctor_def EventQueue_ctor_wf ListenerList_ctor_inv)
next
  case (queueEvent em ec ep pri)
  then show ?case
    by (simp add: EventManager_wf_def EventManager_queueEvent_def case_prod_beta queueEvent_wf)
next
  case (addListener em ec listener)
  then show ?case
    by (simp add: EventManager_wf_def EventManager_addListener_def case_prod_beta addListener_inv)
next
  case (removeListener em ec listener)
  then show ?case
    by (simp add: EventManager_wf_def EventManager_removeListener_def case_prod_beta
        removeListener_inv)
next
  case (removeListener_cb em listener)
  then show ?case
    by (simp add: EventManager_wf_def EventManager_removeListener_cb_def case_prod_beta
        removeListener_cb_inv)
next
  case (enableListener em ec listener enable)
  then show ?case
    by (simp add: EventManager_wf_def EventManager_enableListener_def case_prod_beta
        enableListener_inv)
next
  case (setDefaultListener em listener)
  then show ?case
    by (simp add: EventManager_wf_def EventManager_setDefaultListener_def case_prod_beta
        default_listener_inv)
next
  case (removeDefaultListener em)
  then show ?case
    by (simp add: EventManager_wf_def EventManager_removeDefaultListener_def default_listener_inv)
next
  case (enableDefaultListener em enable)
  then show ?case
    by (simp add: EventManager_wf_def EventManager_enableDefaultListener_def default_listener_inv)
next
  case (processEvent em locals)
  then show ?case
    by (simp add: EventManager_wf_def EventManager_processEvent_def case_prod_beta popEvent_wf)
next
  case (processAllEvents em locals r)
  from processAllEvents.IH have wfh: "EventQueue_wf (mHighPriorityQueue em)"
    and wfl: "EventQueue_wf (mLowPriorityQueue em)"
    and inv: "ListenerList_inv (mListenerList em)"
    by (simp_all add: EventManager_wf_def)
  from processAllEvents_loop_drain [OF wfh, of kHighPriority "mListenerList em" locals 0 "[]"]
  obtain rh where rh: "processAllEvents_loop kHighPriority (mListenerList em) locals 0 []
      (mHighPriorityQueue em) = Some rh" and wfh': "EventQueue_wf (snd (snd (snd rh)))"
    by force
  from processAllEvents_loop_drain [OF wfl, of kLowPriority "mListenerList em" "fst rh"
      "fst (snd rh)" "fst (snd (snd rh))"]
  obtain rl where rl: "processAllEvents_loop kLowPriority (mListenerList em) (fst rh)
      (fst (snd rh)) (fst (snd (snd rh))) (mLowPriorityQueue em) = Some rl"
    and wfl': "EventQueue_wf (snd (snd (snd rl)))"
    by force
  from processAllEvents.hyps(2) rh rl wfh' wfl' inv show ?case
    by (auto simp: EventManager_processAllEvents_def EventManager_wf_def case_prod_beta)
qed

lemma default_manager_reachable:
  "length slots0 = 8 \<Longrightarrow>
   EventManager_reachable
     (EventManager_ctor EVENTMANAGER_EVENT_QUEUE_SIZE EVENTMANAGER_LISTENER_LIST_SIZE
        safety slots0 flag0)"
  by (rule EventManager_reachable.ctor)
     (simp_all add: EVENTMANAGER_EVENT_QUEUE_SIZE_def EVENTMANAGER_LISTENER_LIST_SIZE_def)

end
